theory Spec2Isabelle
  imports Complex_Main "HOL-Library.Multiset"
begin

section \<open>Floating-point values\<close>

text \<open>
  The program computes with C++ \<^verbatim>\<open>float\<close> and \<^verbatim>\<open>double\<close>. A value is modelled as
  an exact real number or one of the three special values of IEEE 754. Arithmetic on finite
  values is exact (rounding, overflow and the sign of zero are not modelled); the special
  values follow IEEE 754: \<open>0/0\<close> is \<open>NaN\<close>, a non-zero value divided by zero is an
  infinity, \<open>NaN\<close> propagates through every operation, and every ordered comparison with
  \<open>NaN\<close> is false.
\<close>

datatype float = Fin real | PInf | NInf | NaN

fun fneg :: "float \<Rightarrow> float" where
  "fneg (Fin x) = Fin (- x)"
| "fneg PInf = NInf"
| "fneg NInf = PInf"
| "fneg NaN = NaN"

fun fadd :: "float \<Rightarrow> float \<Rightarrow> float" where
  "fadd (Fin x) (Fin y) = Fin (x + y)"
| "fadd NaN _ = NaN"
| "fadd _ NaN = NaN"
| "fadd PInf NInf = NaN"
| "fadd NInf PInf = NaN"
| "fadd PInf _ = PInf"
| "fadd _ PInf = PInf"
| "fadd NInf _ = NInf"
| "fadd _ NInf = NInf"

definition fsub :: "float \<Rightarrow> float \<Rightarrow> float" where
  "fsub a b = fadd a (fneg b)"

fun fmul :: "float \<Rightarrow> float \<Rightarrow> float" where
  "fmul (Fin x) (Fin y) = Fin (x * y)"
| "fmul NaN _ = NaN"
| "fmul _ NaN = NaN"
| "fmul PInf (Fin y) = (if y = 0 then NaN else if 0 < y then PInf else NInf)"
| "fmul NInf (Fin y) = (if y = 0 then NaN else if 0 < y then NInf else PInf)"
| "fmul (Fin x) PInf = (if x = 0 then NaN else if 0 < x then PInf else NInf)"
| "fmul (Fin x) NInf = (if x = 0 then NaN else if 0 < x then NInf else PInf)"
| "fmul PInf PInf = PInf"
| "fmul PInf NInf = NInf"
| "fmul NInf PInf = NInf"
| "fmul NInf NInf = PInf"

fun fdiv :: "float \<Rightarrow> float \<Rightarrow> float" where
  "fdiv (Fin x) (Fin y) =
     (if y \<noteq> 0 then Fin (x / y)
      else if x = 0 then NaN
      else if 0 < x then PInf else NInf)"
| "fdiv NaN _ = NaN"
| "fdiv _ NaN = NaN"
| "fdiv (Fin x) PInf = Fin 0"
| "fdiv (Fin x) NInf = Fin 0"
| "fdiv PInf (Fin y) = (if 0 \<le> y then PInf else NInf)"
| "fdiv NInf (Fin y) = (if 0 \<le> y then NInf else PInf)"
| "fdiv PInf PInf = NaN"
| "fdiv PInf NInf = NaN"
| "fdiv NInf PInf = NaN"
| "fdiv NInf NInf = NaN"

fun fsqrt :: "float \<Rightarrow> float" where
  "fsqrt (Fin x) = (if x < 0 then NaN else Fin (sqrt x))"
| "fsqrt PInf = PInf"
| "fsqrt NInf = NaN"
| "fsqrt NaN = NaN"

text \<open>\<open>fgt a b\<close> is the C++ comparison \<^verbatim>\<open>a > b\<close>, \<open>fle a b\<close> is \<^verbatim>\<open>a <= b\<close>.\<close>

fun fgt :: "float \<Rightarrow> float \<Rightarrow> bool" where
  "fgt (Fin x) (Fin y) = (y < x)"
| "fgt NaN _ = False"
| "fgt _ NaN = False"
| "fgt PInf PInf = False"
| "fgt PInf _ = True"
| "fgt _ PInf = False"
| "fgt NInf _ = False"
| "fgt (Fin x) NInf = True"

definition fle :: "float \<Rightarrow> float \<Rightarrow> bool" where
  "fle a b = (a \<noteq> NaN \<and> b \<noteq> NaN \<and> \<not> fgt a b)"

section \<open>Vector algebra\<close>

text \<open>
  Modelled from the spec: the vector primitives \<^verbatim>\<open>vec_dot\<close>, \<^verbatim>\<open>vec_norm\<close>,
  \<^verbatim>\<open>vec_sum\<close>, \<^verbatim>\<open>vec_multiply\<close>, \<^verbatim>\<open>vec_divide\<close> and \<^verbatim>\<open>vec_normalize\<close> are declared
  in \<^verbatim>\<open>vectors.h\<close>, which is not among the sources. They follow section 4.1 of the
  specification: the dot product is the sum of the elementwise products, the norm is the
  square root of the dot product of a vector with itself, the sum of a group of vectors is
  elementwise, scaling and division act on every element, and normalization divides a vector
  by its norm. No primitive checks its precondition (section 7: the design does not guard
  against a zero norm). The argument order is the one of the calls in \<^verbatim>\<open>spkmeans.cpp\<close>.
  A vector is the list of its elements; the in-place operations return the new vector.
\<close>

definition vec_dot :: "float list \<Rightarrow> float list \<Rightarrow> nat \<Rightarrow> float" where
  "vec_dot a b n = foldl fadd (Fin 0) (map (\<lambda>i. fmul (a ! i) (b ! i)) [0..<n])"

definition vec_norm :: "float list \<Rightarrow> nat \<Rightarrow> float" where
  "vec_norm a n = fsqrt (vec_dot a a n)"

definition vec_sum :: "float list list \<Rightarrow> nat \<Rightarrow> nat \<Rightarrow> float list" where
  "vec_sum vs n m = map (\<lambda>w. foldl fadd (Fin 0) (map (\<lambda>j. vs ! j ! w) [0..<m])) [0..<n]"

definition vec_multiply :: "float list \<Rightarrow> nat \<Rightarrow> float \<Rightarrow> float list" where
  "vec_multiply a n s = map (\<lambda>x. fmul x s) (take n a) @ drop n a"

definition vec_divide :: "float list \<Rightarrow> nat \<Rightarrow> float \<Rightarrow> float list" where
  "vec_divide a n s = map (\<lambda>x. fdiv x s) (take n a) @ drop n a"

definition vec_normalize :: "float list \<Rightarrow> nat \<Rightarrow> float list" where
  "vec_normalize a n = vec_divide a n (vec_norm a n)"

section \<open>Cluster state\<close>

text \<open>
  Modelled from the spec: the class \<^verbatim>\<open>ClusterData\<close> is declared in \<^verbatim>\<open>cluster_data.h\<close>,
  which is not among the sources. By section 3 of the specification and by the uses in
  \<^verbatim>\<open>spkmeans.cpp\<close> it holds the parameters \<open>k\<close>, \<open>dc\<close>, \<open>wc\<close>, the \<open>k\<close> partitions, their
  sizes and the \<open>k\<close> concept vectors. A partition is an array of pointers to rows of the
  document matrix; a pointer to row \<open>i\<close> is the index \<open>i\<close>.
\<close>

record ClusterData =
  cd_k :: nat
  cd_dc :: nat
  cd_wc :: nat
  partitions :: "nat list list"
  p_sizes :: "int list"
  concepts :: "float list list"

text \<open>The rows a partition points to, read from the document matrix.\<close>

definition rows :: "float list list \<Rightarrow> nat list \<Rightarrow> float list list" where
  "rows doc_matrix part = map (\<lambda>r. doc_matrix ! r) part"

section \<open>The clustering engine (spkmeans.cpp)\<close>

definition Q_THRESHOLD :: float where
  "Q_THRESHOLD = Fin (1 / 1000)"

definition txnScheme :: "float list list \<Rightarrow> nat \<Rightarrow> nat \<Rightarrow> float list list" where
  "txnScheme doc_matrix dc wc =
     map (\<lambda>v. vec_normalize v wc) (take dc doc_matrix) @ drop dc doc_matrix"

text \<open>Quality of one partition (the four-argument overload of \<^verbatim>\<open>computeQuality\<close>).\<close>

definition computeQuality_partition ::
  "float list list \<Rightarrow> nat \<Rightarrow> float list \<Rightarrow> nat \<Rightarrow> float" where
  "computeQuality_partition part p_size concept wc =
     (let sum_p = vec_sum part wc p_size in vec_dot sum_p concept wc)"

text \<open>Total quality (the five-argument overload), accumulated in partition order.\<close>

definition computeQuality ::
  "float list list \<Rightarrow> nat list list \<Rightarrow> int list \<Rightarrow> float list list \<Rightarrow> nat \<Rightarrow> nat \<Rightarrow> float" where
  "computeQuality doc_matrix parts sizes cs k wc =
     foldl (\<lambda>q i. fadd q (computeQuality_partition (rows doc_matrix (parts ! i))
                            (nat (sizes ! i)) (cs ! i) wc))
           (Fin 0) [0..<k]"

definition cosineSimilarity :: "float list \<Rightarrow> float list \<Rightarrow> nat \<Rightarrow> float" where
  "cosineSimilarity dv cv wc =
     fdiv (vec_dot dv cv wc) (fmul (vec_norm dv wc) (vec_norm cv wc))"

definition computeConcept :: "float list list \<Rightarrow> nat \<Rightarrow> nat \<Rightarrow> float list" where
  "computeConcept part p_size wc =
     (let cv = vec_sum part wc p_size;
          cv = vec_multiply cv wc (fdiv (Fin 1) (Fin (real wc)));
          cv = vec_divide cv wc (vec_norm cv wc)
      in cv)"

subsection \<open>The first partitioning (lines 146 to 164)\<close>

text \<open>
  The loop over \<open>i\<close> with the running \<open>base\<close>. \<open>base\<close>, \<open>top\<close> and \<open>p_size\<close> are \<^verbatim>\<open>int\<close>
  in the source and integers here, since \<open>top - base\<close> is \<open>-1\<close> when \<open>split\<close> is \<open>0\<close>.
  Each step yields the new partition and its size.
\<close>

function createPartitions :: "nat \<Rightarrow> nat \<Rightarrow> int \<Rightarrow> nat \<Rightarrow> int \<Rightarrow> (nat list \<times> int) list" where
  "createPartitions k dc split i base =
     (if i < k then
        (let top = (if i = k - 1 then int dc else base + split - 1);
             p_size = top - base + 1;
             part = map (\<lambda>j. nat (base + int j - 1)) [0..<nat p_size]
         in (part, p_size) # createPartitions k dc split (i + 1) (base + split))
      else [])"
  by pat_completeness auto
termination
  by (relation "measure (\<lambda>(k, dc, split, i, base). k - i)") auto

declare createPartitions.simps [simp del]

definition firstPartitioning :: "nat \<Rightarrow> nat \<Rightarrow> (nat list \<times> int) list" where
  "firstPartitioning k dc = createPartitions k dc (int (dc div k)) 0 1"

subsection \<open>The assignment step (lines 193 to 207)\<close>

text \<open>The inner loop over \<open>j\<close>, from \<open>1\<close>, with the running \<open>cIndx\<close> and \<open>cVal\<close>.\<close>

function closestLoop ::
  "float list \<Rightarrow> float list list \<Rightarrow> nat \<Rightarrow> nat \<Rightarrow> nat \<Rightarrow> nat \<Rightarrow> float \<Rightarrow> nat" where
  "closestLoop dv cs k wc j cIndx cVal =
     (if j < k then
        (let new_cVal = cosineSimilarity dv (cs ! j) wc in
         if fgt new_cVal cVal then closestLoop dv cs k wc (j + 1) j new_cVal
         else closestLoop dv cs k wc (j + 1) cIndx cVal)
      else cIndx)"
  by pat_completeness auto
termination
  by (relation "measure (\<lambda>(dv, cs, k, wc, j, cIndx, cVal). k - j)") auto

declare closestLoop.simps [simp del]

definition closestConcept :: "float list \<Rightarrow> float list list \<Rightarrow> nat \<Rightarrow> nat \<Rightarrow> nat" where
  "closestConcept dv cs k wc = closestLoop dv cs k wc 1 0 (cosineSimilarity dv (cs ! 0) wc)"

text \<open>The loop over the documents: document \<open>i\<close> is appended to the chosen new partition.\<close>

definition new_partitions :: "float list list \<Rightarrow> float list list \<Rightarrow> nat \<Rightarrow> nat \<Rightarrow> nat \<Rightarrow> nat list list" where
  "new_partitions doc_matrix cs k dc wc =
     foldl (\<lambda>np i. (let cIndx = closestConcept (doc_matrix ! i) cs k wc
                     in np[cIndx := np ! cIndx @ [i]]))
           (replicate k []) [0..<dc]"

subsection \<open>The iteration loop (lines 186 to 235)\<close>

text \<open>The local variables of \<^verbatim>\<open>runSPKMeans\<close> that the loop reads and writes.\<close>

record locals =
  data :: ClusterData
  quality :: float
  dQ :: float
  iterations :: nat

definition computeConcepts :: "float list list \<Rightarrow> nat list list \<Rightarrow> int list \<Rightarrow> nat \<Rightarrow> nat \<Rightarrow> float list list" where
  "computeConcepts doc_matrix parts sizes k wc =
     map (\<lambda>i. computeConcept (rows doc_matrix (parts ! i)) (nat (sizes ! i)) wc) [0..<k]"

definition loopBody :: "float list list \<Rightarrow> locals \<Rightarrow> locals" where
  "loopBody doc_matrix s =
     (let d = data s; k = cd_k d; dc = cd_dc d; wc = cd_wc d;
          np = new_partitions doc_matrix (concepts d) k dc wc;
          parts = map (\<lambda>i. np ! i) [0..<k];
          sizes = map (\<lambda>i. int (length (np ! i))) [0..<k];
          cs = computeConcepts doc_matrix parts sizes k wc;
          n_quality = computeQuality doc_matrix parts sizes cs k wc
      in \<lparr> data = d\<lparr> partitions := parts, p_sizes := sizes, concepts := cs \<rparr>,
           quality = n_quality,
           dQ = fsub n_quality (quality s),
           iterations = iterations s + 1 \<rparr>)"

partial_function (option) spkLoop :: "float list list \<Rightarrow> locals \<Rightarrow> locals option" where
  "spkLoop doc_matrix s =
     (if fgt (dQ s) Q_THRESHOLD then spkLoop doc_matrix (loopBody doc_matrix s) else Some s)"

subsection \<open>runSPKMeans\<close>

text \<open>
  The call has no defined result when \<open>k\<close> is \<open>0\<close> (the division \<open>dc / k\<close>, the read of
  \<open>concepts[0]\<close>) or when the matrix does not have \<open>dc\<close> rows of \<open>wc\<close> elements (reads out
  of range); these cases and a loop that never ends are the value \<open>None\<close>.
\<close>

definition valid_input :: "float list list \<Rightarrow> nat \<Rightarrow> nat \<Rightarrow> nat \<Rightarrow> bool" where
  "valid_input doc_matrix k dc wc =
     (0 < k \<and> length doc_matrix = dc \<and> list_all (\<lambda>v. length v = wc) doc_matrix)"

text \<open>The state of the local variables when the loop is entered.\<close>

definition beforeLoop :: "float list list \<Rightarrow> nat \<Rightarrow> nat \<Rightarrow> nat \<Rightarrow> locals" where
  "beforeLoop doc_matrix k dc wc =
     (let ps = firstPartitioning k dc;
          parts = map fst ps;
          sizes = map snd ps;
          cs = computeConcepts doc_matrix parts sizes k wc;
          q = computeQuality doc_matrix parts sizes cs k wc
      in \<lparr> data = \<lparr> cd_k = k, cd_dc = dc, cd_wc = wc,
                    partitions = parts, p_sizes = sizes, concepts = cs \<rparr>,
           quality = q,
           dQ = fmul Q_THRESHOLD (Fin 10),
           iterations = 0 \<rparr>)"

text \<open>The local variables when the loop has ended, and the value returned.\<close>

definition runSPKMeans_locals :: "float list list \<Rightarrow> nat \<Rightarrow> nat \<Rightarrow> nat \<Rightarrow> locals option" where
  "runSPKMeans_locals doc_matrix k dc wc =
     (if valid_input doc_matrix k dc wc then
        (let D = txnScheme doc_matrix dc wc in spkLoop D (beforeLoop D k dc wc))
      else None)"

definition runSPKMeans :: "float list list \<Rightarrow> nat \<Rightarrow> nat \<Rightarrow> nat \<Rightarrow> ClusterData option" where
  "runSPKMeans doc_matrix k dc wc = map_option data (runSPKMeans_locals doc_matrix k dc wc)"

section \<open>Exact arithmetic on lists of reals\<close>

text \<open>
  The dot product and norm of vectors of real numbers, and the real number of a finite
  floating-point value; they state what the program computes on finite vectors.
\<close>


definition rdot :: "real list \<Rightarrow> real list \<Rightarrow> real" where
  "rdot a b = (\<Sum>i<length a. a ! i * b ! i)"

definition rnorm :: "real list \<Rightarrow> real" where
  "rnorm a = sqrt (rdot a a)"

fun re :: "float \<Rightarrow> real" where
  "re (Fin x) = x"
| "re _ = 0"

section \<open>The assignment step with plain dot products\<close>





section \<open>Notions used to state and prove the properties\<close>

text \<open>
  The sum of the members of a partition and its normalization over the reals, the quality
  that one partition contributes, the total quality as a function of the partitions, and the
  relation between the partitions and the other local variables that holds whenever the loop
  condition is evaluated.
\<close>

definition rsum :: "real list list \<Rightarrow> nat list \<Rightarrow> nat \<Rightarrow> real list" where
  "rsum U part wc = map (\<lambda>w. \<Sum>r\<leftarrow>part. U ! r ! w) [0..<wc]"

definition partQuality :: "float list list \<Rightarrow> nat list \<Rightarrow> nat \<Rightarrow> float" where
  "partQuality D part wc =
     computeQuality_partition (rows D part) (length part)
       (computeConcept (rows D part) (length part) wc) wc"

definition qualityOf :: "float list list \<Rightarrow> nat list list \<Rightarrow> nat \<Rightarrow> float" where
  "qualityOf D parts wc = foldl fadd (Fin 0) (map (\<lambda>p. partQuality D p wc) parts)"

definition coherent :: "float list list \<Rightarrow> nat \<Rightarrow> nat \<Rightarrow> nat \<Rightarrow> locals \<Rightarrow> bool" where
  "coherent D k dc wc s \<longleftrightarrow>
     cd_k (data s) = k \<and> cd_dc (data s) = dc \<and> cd_wc (data s) = wc \<and>
     length (partitions (data s)) = k \<and>
     mset (concat (partitions (data s))) = mset [0..<dc] \<and>
     p_sizes (data s) = map (\<lambda>p. int (length p)) (partitions (data s)) \<and>
     concepts (data s) =
       map (\<lambda>p. computeConcept (rows D p) (length p) wc) (partitions (data s)) \<and>
     quality s = qualityOf D (partitions (data s)) wc"

definition rconcept :: "real list list \<Rightarrow> nat list \<Rightarrow> nat \<Rightarrow> real list" where
  "rconcept U part wc = map (\<lambda>x. x / rnorm (rsum U part wc)) (rsum U part wc)"

section \<open>Example inputs\<close>

text \<open>
  Three sets of documents in two dimensions, every one of norm 1 (the points
  \<open>((m\<^sup>2 - 1) / (m\<^sup>2 + 1), 2 m / (m\<^sup>2 + 1))\<close> for a rational \<open>m\<close>, and \<open>(1, 0)\<close>), on which the
  engine is run with \<open>k = 2\<close>. \<open>docs_C10b\<close> is \<open>docs_C10a\<close> with the second and the third
  document exchanged.
\<close>

definition docs_C8 :: "real list list" where
  "docs_C8 = [[1, 0], [1, 0], [3599 / 3601, 120 / 3601], [2499 / 2501, 100 / 2501], [112 / 113, 15 / 113]]"

definition docs_C10a :: "real list list" where
  "docs_C10a = [[1, 0], [1, 0], [6399 / 6401, 160 / 6401], [312 / 313, 25 / 313]]"

definition docs_C10b :: "real list list" where
  "docs_C10b = [[1, 0], [6399 / 6401, 160 / 6401], [1, 0], [312 / 313, 25 / 313]]"

section \<open>The first partitioning is made of contiguous blocks\<close>


lemma map_nat_offset: "map (\<lambda>j. nat (1 + int a + int j - 1)) [0..<n] = [a ..< a + n]"
proof -
  have "map (\<lambda>j. nat (1 + int a + int j - 1)) [0..<n] = map (\<lambda>j. j + a) [0..<n]"
    by (rule map_cong) (auto simp: nat_add_distrib)
  also have "\<dots> = [a ..< a + n]"
    by (simp add: map_add_upt add.commute)
  finally show ?thesis .
qed

lemma createPartitions_blocks:
  assumes "(k - 1) * s \<le> dc"
  shows "i \<le> k \<Longrightarrow>
     createPartitions k dc (int s) i (1 + int (i * s)) =
       map (\<lambda>i. ([i * s ..< (if i = k - 1 then dc else (i + 1) * s)],
                  int (if i = k - 1 then dc - i * s else s))) [i..<k]"
proof (induction "k - i" arbitrary: i)
  case 0
  then show ?case by (subst createPartitions.simps) simp
next
  case (Suc d)
  then have lt: "i < k" and d: "d = k - (i + 1)" and le': "i + 1 \<le> k" by auto
  have ik: "[i..<k] = i # [Suc i..<k]" using lt by (simp add: upt_conv_Cons)
  have "i \<le> k - 1" using lt by simp
  then have "i * s \<le> (k - 1) * s" by (rule mult_le_mono1)
  with assms have le: "i * s \<le> dc" by linarith
  have base': "1 + int (i * s) + int s = 1 + int ((i + 1) * s)"
    by (simp add: algebra_simps)
  have IH: "createPartitions k dc (int s) (i + 1) (1 + int ((i + 1) * s)) =
       map (\<lambda>i. ([i * s ..< (if i = k - 1 then dc else (i + 1) * s)],
                  int (if i = k - 1 then dc - i * s else s))) [i + 1..<k]"
    using Suc.hyps(1)[OF d le'] .
  have psize: "(if i = k - 1 then int dc else 1 + int (i * s) + int s - 1) - (1 + int (i * s)) + 1
       = int (if i = k - 1 then dc - i * s else s)"
  proof (cases "i = k - 1")
    case True
    have "int dc - int (i * s) = int (dc - i * s)" using le by (simp add: of_nat_diff)
    with True show ?thesis by simp
  next
    case False
    then show ?thesis by simp
  qed
  have part: "map (\<lambda>j. nat (1 + int (i * s) + int j - 1)) [0..<(if i = k - 1 then dc - i * s else s)]
       = [i * s ..< (if i = k - 1 then dc else (i + 1) * s)]"
  proof -
    have "map (\<lambda>j. nat (1 + int (i * s) + int j - 1)) [0..<(if i = k - 1 then dc - i * s else s)]
        = [i * s ..< i * s + (if i = k - 1 then dc - i * s else s)]"
      by (rule map_nat_offset)
    also have "i * s + (if i = k - 1 then dc - i * s else s) = (if i = k - 1 then dc else (i + 1) * s)"
    proof -
      have "i * s + (dc - i * s) = dc" using le by simp
      moreover have "i * s + s = (i + 1) * s" by simp
      ultimately show ?thesis by (cases "i = k - 1") auto
    qed
    finally show ?thesis .
  qed
  have "createPartitions k dc (int s) i (1 + int (i * s)) =
      (map (\<lambda>j. nat (1 + int (i * s) + int j - 1))
           [0..<nat ((if i = k - 1 then int dc else 1 + int (i * s) + int s - 1) - (1 + int (i * s)) + 1)],
       (if i = k - 1 then int dc else 1 + int (i * s) + int s - 1) - (1 + int (i * s)) + 1)
      # createPartitions k dc (int s) (i + 1) (1 + int (i * s) + int s)"
    by (subst createPartitions.simps) (simp only: lt if_True Let_def)
  also have "\<dots> = ([i * s ..< (if i = k - 1 then dc else (i + 1) * s)],
                  int (if i = k - 1 then dc - i * s else s))
      # map (\<lambda>i. ([i * s ..< (if i = k - 1 then dc else (i + 1) * s)],
                  int (if i = k - 1 then dc - i * s else s))) [i + 1..<k]"
    by (simp only: psize nat_int part) (simp only: base' IH)
  finally show ?case by (simp only: ik list.map Suc_eq_plus1)
qed


lemma firstPartitioning_blocks:
  assumes "0 < k"
  shows "firstPartitioning k dc =
       map (\<lambda>i. ([i * (dc div k) ..< (if i = k - 1 then dc else (i + 1) * (dc div k))],
                  int (if i = k - 1 then dc - i * (dc div k) else dc div k))) [0..<k]"
proof -
  have "(k - 1) * (dc div k) \<le> k * (dc div k)" by (rule mult_le_mono1) simp
  also have "\<dots> \<le> dc" by simp
  finally have a: "(k - 1) * (dc div k) \<le> dc" .
  show ?thesis
    unfolding firstPartitioning_def
    using createPartitions_blocks[OF a, of 0] by simp
qed


section \<open>The assignment step\<close>



lemma fgt_trans: "fgt c b \<Longrightarrow> fgt b a \<Longrightarrow> fgt c a"
  by (cases a; cases b; cases c) auto

lemma fgt_irrefl: "\<not> fgt a a"
  by (cases a) auto


lemma closestLoop_spec:
  assumes "j \<le> k" "cIndx < j" "cVal = cosineSimilarity dv (cs ! cIndx) wc"
    and "\<forall>i<j. \<not> fgt (cosineSimilarity dv (cs ! i) wc) cVal"
    and "\<forall>i<cIndx. cosineSimilarity dv (cs ! i) wc \<noteq> cVal"
  shows "closestLoop dv cs k wc j cIndx cVal < k \<and>
     (\<forall>i<k. \<not> fgt (cosineSimilarity dv (cs ! i) wc)
                   (cosineSimilarity dv (cs ! closestLoop dv cs k wc j cIndx cVal) wc)) \<and>
     (\<forall>i<closestLoop dv cs k wc j cIndx cVal. cosineSimilarity dv (cs ! i) wc \<noteq>
          cosineSimilarity dv (cs ! closestLoop dv cs k wc j cIndx cVal) wc)"
  using assms
proof (induction dv cs k wc j cIndx cVal rule: closestLoop.induct)
  case (1 dv cs k wc j cIndx cVal)
  let ?sim = "\<lambda>i. cosineSimilarity dv (cs ! i) wc"
  show ?case
  proof (cases "j < k")
    case False
    with 1 have "j = k" by simp
    have eq: "closestLoop dv cs k wc j cIndx cVal = cIndx"
      using False by (subst closestLoop.simps) simp
    show ?thesis unfolding eq using 1(4,5,6,7) \<open>j = k\<close> by simp
  next
    case True
    show ?thesis
    proof (cases "fgt (?sim j) cVal")
      case gt: True
      have a: "\<forall>i<j + 1. \<not> fgt (?sim i) (?sim j)"
      proof (intro allI impI)
        fix i assume "i < j + 1"
        show "\<not> fgt (?sim i) (?sim j)"
        proof (cases "i = j")
          case True then show ?thesis by (simp add: fgt_irrefl)
        next
          case False
          with \<open>i < j + 1\<close> have "i < j" by simp
          with 1(6) have "\<not> fgt (?sim i) cVal" by simp
          with gt show ?thesis using fgt_trans by blast
        qed
      qed
      have b: "\<forall>i<j. ?sim i \<noteq> ?sim j"
        using 1(6) gt by auto
      have "closestLoop dv cs k wc (j + 1) j (?sim j) < k \<and>
         (\<forall>i<k. \<not> fgt (?sim i) (?sim (closestLoop dv cs k wc (j + 1) j (?sim j)))) \<and>
         (\<forall>i<closestLoop dv cs k wc (j + 1) j (?sim j). ?sim i \<noteq> ?sim (closestLoop dv cs k wc (j + 1) j (?sim j)))"
        using 1(1)[OF True refl gt] True a b by simp
      moreover have "closestLoop dv cs k wc j cIndx cVal = closestLoop dv cs k wc (j + 1) j (?sim j)"
        using True gt by (subst closestLoop.simps) (simp add: Let_def)
      ultimately show ?thesis by simp
    next
      case ngt: False
      have a: "\<forall>i<j + 1. \<not> fgt (?sim i) cVal"
        using 1(6) ngt by (auto simp: less_Suc_eq)
      have "closestLoop dv cs k wc (j + 1) cIndx cVal < k \<and>
         (\<forall>i<k. \<not> fgt (?sim i) (?sim (closestLoop dv cs k wc (j + 1) cIndx cVal))) \<and>
         (\<forall>i<closestLoop dv cs k wc (j + 1) cIndx cVal. ?sim i \<noteq> ?sim (closestLoop dv cs k wc (j + 1) cIndx cVal))"
        using 1(2)[OF True refl ngt] True a 1(4,5,7) by simp
      moreover have "closestLoop dv cs k wc j cIndx cVal = closestLoop dv cs k wc (j + 1) cIndx cVal"
        using True ngt by (subst closestLoop.simps) (simp add: Let_def)
      ultimately show ?thesis by simp
    qed
  qed
qed

lemma closestConcept_spec:
  assumes "0 < k"
  shows "closestConcept dv cs k wc < k \<and>
     (\<forall>i<k. \<not> fgt (cosineSimilarity dv (cs ! i) wc)
                   (cosineSimilarity dv (cs ! closestConcept dv cs k wc) wc)) \<and>
     (\<forall>i<closestConcept dv cs k wc. cosineSimilarity dv (cs ! i) wc \<noteq>
          cosineSimilarity dv (cs ! closestConcept dv cs k wc) wc)"
  unfolding closestConcept_def
  using assms by (intro closestLoop_spec) (auto simp: fgt_irrefl)

lemma foldl_push_back:
  "\<forall>x\<in>set xs. c x < length np \<Longrightarrow>
   foldl (\<lambda>np i. (let cIndx = c i in np[cIndx := np ! cIndx @ [i]])) np xs =
     map (\<lambda>j. np ! j @ filter (\<lambda>x. c x = j) xs) [0..<length np]"
proof (induction xs arbitrary: np)
  case Nil
  then show ?case by (simp add: map_nth)
next
  case (Cons x xs)
  let ?np = "np[c x := np ! c x @ [x]]"
  have "foldl (\<lambda>np i. (let cIndx = c i in np[cIndx := np ! cIndx @ [i]])) ?np xs =
     map (\<lambda>j. ?np ! j @ filter (\<lambda>x. c x = j) xs) [0..<length ?np]"
    using Cons.prems by (intro Cons.IH) simp
  also have "\<dots> = map (\<lambda>j. np ! j @ filter (\<lambda>x. c x = j) (x # xs)) [0..<length np]"
    by (auto simp: nth_list_update)
  finally show ?case by (simp add: Let_def)
qed

lemma new_partitions_filter:
  assumes "0 < k"
  shows "new_partitions D cs k dc wc =
     map (\<lambda>j. filter (\<lambda>i. closestConcept (D ! i) cs k wc = j) [0..<dc]) [0..<k]"
proof -
  have "\<forall>x\<in>set [0..<dc]. closestConcept (D ! x) cs k wc < length (replicate k ([]::nat list))"
    using closestConcept_spec[OF assms] by simp
  from foldl_push_back[of "[0..<dc]" "\<lambda>i. closestConcept (D ! i) cs k wc" "replicate k []", OF this]
  show ?thesis unfolding new_partitions_def by simp
qed

lemma mset_concat_filter:
  "mset (concat (map (\<lambda>j. filter (\<lambda>x. c x = j) xs) [0..<k])) = mset (filter (\<lambda>x. c x < k) xs)"
proof (induction k)
  case 0
  then show ?case by simp
next
  case (Suc k)
  have "mset (filter (\<lambda>x. c x < k) xs) + mset (filter (\<lambda>x. c x = k) xs) = mset (filter (\<lambda>x. c x < Suc k) xs)"
    by (induction xs) (auto simp: less_Suc_eq)
  with Suc show ?case by simp
qed


section \<open>The iteration loop\<close>



lemma spkLoop_unroll:
  "\<forall>i<n. fgt (dQ ((loopBody D ^^ i) s)) Q_THRESHOLD \<Longrightarrow>
   spkLoop D s = spkLoop D ((loopBody D ^^ n) s)"
proof (induction n)
  case 0
  then show ?case by simp
next
  case (Suc n)
  then have "spkLoop D s = spkLoop D ((loopBody D ^^ n) s)" by simp
  also have "\<dots> = spkLoop D (loopBody D ((loopBody D ^^ n) s))"
    using Suc.prems by (subst spkLoop.simps) simp
  finally show ?case by simp
qed

lemma spkLoop_stops:
  assumes "\<forall>i<n. fgt (dQ ((loopBody D ^^ i) s)) Q_THRESHOLD"
    and "\<not> fgt (dQ ((loopBody D ^^ n) s)) Q_THRESHOLD"
  shows "spkLoop D s = Some ((loopBody D ^^ n) s)"
proof -
  have "spkLoop D s = spkLoop D ((loopBody D ^^ n) s)"
    using assms(1) by (rule spkLoop_unroll)
  also have "\<dots> = Some ((loopBody D ^^ n) s)"
    using assms(2) by (subst spkLoop.simps) simp
  finally show ?thesis .
qed

lemma spkLoop_Some:
  assumes "spkLoop D s = Some t"
  shows "\<exists>n. t = (loopBody D ^^ n) s \<and> \<not> fgt (dQ t) Q_THRESHOLD \<and>
             (\<forall>i<n. fgt (dQ ((loopBody D ^^ i) s)) Q_THRESHOLD)"
  using assms
proof (induction D s t rule: spkLoop.raw_induct[rotated 1, consumes 1])
  case (1 spkLoop' D s t)
  show ?case
  proof (cases "fgt (dQ s) Q_THRESHOLD")
    case True
    with 1(2) have "spkLoop' D (loopBody D s) = Some t" by simp
    from 1(1)[OF this] obtain n where n: "t = (loopBody D ^^ n) (loopBody D s)"
      "\<not> fgt (dQ t) Q_THRESHOLD" "\<forall>i<n. fgt (dQ ((loopBody D ^^ i) (loopBody D s))) Q_THRESHOLD"
      by blast
    have "\<forall>i<Suc n. fgt (dQ ((loopBody D ^^ i) s)) Q_THRESHOLD"
    proof (intro allI impI)
      fix i assume "i < Suc n"
      show "fgt (dQ ((loopBody D ^^ i) s)) Q_THRESHOLD"
      proof (cases i)
        case 0 with True show ?thesis by simp
      next
        case (Suc i')
        with \<open>i < Suc n\<close> n(3) show ?thesis by (simp add: funpow_swap1)
      qed
    qed
    moreover have "t = (loopBody D ^^ Suc n) s" using n(1) by (simp add: funpow_swap1)
    ultimately show ?thesis using n(2) by blast
  next
    case False
    with 1(2) have "t = s" by simp
    with False show ?thesis by (intro exI[of _ 0]) simp
  qed
qed

lemma iterations_funpow: "iterations ((loopBody D ^^ n) s) = iterations s + n"
  by (induction n) (simp_all add: loopBody_def Let_def)



section \<open>Auxiliary facts\<close>


lemma concat_blocks:
  assumes "\<forall>i<n. f i \<le> f (Suc i)"
  shows "concat (map (\<lambda>i. [f i ..< f (Suc i)]) [0..<n]) = [f 0 ..< f n]"
  using assms
proof (induction n)
  case 0
  then show ?case by simp
next
  case (Suc n)
  have mono: "f 0 \<le> f n" using Suc.prems
  proof (induction n)
    case 0 then show ?case by simp
  next
    case (Suc m)
    then have "f 0 \<le> f m" by simp
    moreover have "f m \<le> f (Suc m)" using Suc.prems by simp
    ultimately show ?case by (rule le_trans)
  qed
  have "f n \<le> f (Suc n)" using Suc.prems by simp
  with mono have "[f 0 ..< f (Suc n)] = [f 0 ..< f n] @ [f n ..< f (Suc n)]"
    by (metis le_Suc_ex upt_add_eq_append)
  with Suc show ?case by simp
qed

lemma firstPartitioning_concat:
  assumes "0 < k"
  shows "concat (map fst (firstPartitioning k dc)) = [0..<dc]"
proof -
  let ?s = "dc div k"
  let ?f = "\<lambda>i. if i = k then dc else i * ?s"
  have fp: "firstPartitioning k dc =
       map (\<lambda>i. ([i * ?s ..< (if i = k - 1 then dc else (i + 1) * ?s)],
                  int (if i = k - 1 then dc - i * ?s else ?s))) [0..<k]"
    using assms by (rule firstPartitioning_blocks)
  have "(k - 1) * ?s \<le> k * ?s" by (rule mult_le_mono1) simp
  also have "\<dots> \<le> dc" by simp
  finally have le: "(k - 1) * ?s \<le> dc" .
  have "map fst (firstPartitioning k dc) = map (\<lambda>i. [?f i ..< ?f (Suc i)]) [0..<k]"
    using assms by (auto simp: fp)
  moreover have "\<forall>i<k. ?f i \<le> ?f (Suc i)"
    using le by auto
  ultimately have "concat (map fst (firstPartitioning k dc)) = [?f 0 ..< ?f k]"
    using concat_blocks[of k ?f] by simp
  then show ?thesis using assms by simp
qed



lemmas eval_defs = txnScheme_def vec_normalize_def vec_divide_def vec_multiply_def vec_norm_def
  vec_dot_def vec_sum_def computeConcept_def computeConcepts_def computeQuality_def
  computeQuality_partition_def cosineSimilarity_def closestConcept_def new_partitions_def
  firstPartitioning_def rows_def Q_THRESHOLD_def fsub_def Let_def

lemma upt_2: "[0..<2] = [0, 1]" by (simp add: upt_rec)

lemma fle_not_fgt: "fle a b \<Longrightarrow> \<not> fgt a b"
  by (simp add: fle_def)

lemma not_fgt_fle: "a \<noteq> NaN \<Longrightarrow> b \<noteq> NaN \<Longrightarrow> \<not> fgt a b \<Longrightarrow> fle a b"
  by (simp add: fle_def)

lemma dQ_beforeLoop: "fgt (dQ (beforeLoop D k dc wc)) Q_THRESHOLD"
  by (simp add: beforeLoop_def Q_THRESHOLD_def Let_def)

lemma iterations_beforeLoop: "iterations (beforeLoop D k dc wc) = 0"
  by (simp add: beforeLoop_def Let_def)

lemma E1_txn: "txnScheme [[Fin 1, Fin 0], [Fin 0, Fin 1]] 2 2 = [[Fin 1, Fin 0], [Fin 0, Fin 1]]"
  by (simp add: eval_defs upt_2)

lemma E1_before: "beforeLoop [[Fin 1, Fin 0], [Fin 0, Fin 1]] 2 2 2 =
   \<lparr> data = \<lparr> cd_k = 2, cd_dc = 2, cd_wc = 2, partitions = [[0], [1]], p_sizes = [1, 1],
               concepts = [[Fin 1, Fin 0], [Fin 0, Fin 1]] \<rparr>,
     quality = Fin 2, dQ = Fin (1/100), iterations = 0 \<rparr>"
  by (simp add: beforeLoop_def eval_defs createPartitions.simps upt_2 real_sqrt_divide)

lemma E1_body: "loopBody [[Fin 1, Fin 0], [Fin 0, Fin 1]] (beforeLoop [[Fin 1, Fin 0], [Fin 0, Fin 1]] 2 2 2) =
   \<lparr> data = \<lparr> cd_k = 2, cd_dc = 2, cd_wc = 2, partitions = [[0], [1]], p_sizes = [1, 1],
               concepts = [[Fin 1, Fin 0], [Fin 0, Fin 1]] \<rparr>,
     quality = Fin 2, dQ = Fin 0, iterations = 1 \<rparr>"
  unfolding E1_before
  by (simp add: loopBody_def eval_defs closestLoop.simps upt_2 real_sqrt_divide)



lemma loopBody_params:
  "cd_k (data (loopBody D s)) = cd_k (data s)"
  "cd_dc (data (loopBody D s)) = cd_dc (data s)"
  "cd_wc (data (loopBody D s)) = cd_wc (data s)"
  by (simp_all add: loopBody_def Let_def)

lemma funpow_params:
  "cd_k (data ((loopBody D ^^ n) s)) = cd_k (data s)"
  "cd_dc (data ((loopBody D ^^ n) s)) = cd_dc (data s)"
  "cd_wc (data ((loopBody D ^^ n) s)) = cd_wc (data s)"
  by (induction n) (simp_all add: loopBody_params)

lemma beforeLoop_params:
  "cd_k (data (beforeLoop D k dc wc)) = k"
  "cd_dc (data (beforeLoop D k dc wc)) = dc"
  "cd_wc (data (beforeLoop D k dc wc)) = wc"
  by (simp_all add: beforeLoop_def Let_def)

lemma loopBody_partitions:
  assumes "0 < cd_k (data s)"
  shows "partitions (data (loopBody D s)) =
     map (\<lambda>j. filter (\<lambda>i. closestConcept (D ! i) (concepts (data s)) (cd_k (data s)) (cd_wc (data s)) = j)
                  [0..<cd_dc (data s)]) [0..<cd_k (data s)]"
    and "p_sizes (data (loopBody D s)) = map (\<lambda>p. int (length p)) (partitions (data (loopBody D s)))"
  using assms by (simp_all add: loopBody_def Let_def new_partitions_filter o_def cong: map_cong)

lemma beforeLoop_partitions:
  assumes "0 < k"
  shows "concat (partitions (data (beforeLoop D k dc wc))) = [0..<dc]"
    and "length (partitions (data (beforeLoop D k dc wc))) = k"
    and "p_sizes (data (beforeLoop D k dc wc)) =
         map (\<lambda>p. int (length p)) (partitions (data (beforeLoop D k dc wc)))"
proof -
  note fp = firstPartitioning_blocks[OF assms, of dc]
  show "concat (partitions (data (beforeLoop D k dc wc))) = [0..<dc]"
    using firstPartitioning_concat[OF assms, of dc] by (simp add: beforeLoop_def Let_def)
  show "length (partitions (data (beforeLoop D k dc wc))) = k"
    by (simp add: beforeLoop_def Let_def fp)
  have le: "(k - 1) * (dc div k) \<le> dc"
  proof -
    have "(k - 1) * (dc div k) \<le> k * (dc div k)" by (rule mult_le_mono1) simp
    also have "\<dots> \<le> dc" by simp
    finally show ?thesis .
  qed
  show "p_sizes (data (beforeLoop D k dc wc)) =
         map (\<lambda>p. int (length p)) (partitions (data (beforeLoop D k dc wc)))"
    using le by (auto simp: beforeLoop_def Let_def fp)
qed

lemma sum_list_lengths: "sum_list (map (\<lambda>p. int (length p)) ps) = int (length (concat ps))"
  by (induction ps) simp_all

lemma distinct_concat_disjoint:
  "distinct (concat ps) \<Longrightarrow> i < length ps \<Longrightarrow> j < length ps \<Longrightarrow> i \<noteq> j \<Longrightarrow>
   set (ps ! i) \<inter> set (ps ! j) = {}"
proof (induction ps arbitrary: i j)
  case Nil
  then show ?case by simp
next
  case (Cons p ps)
  from Cons.prems(1) have d: "distinct (concat ps)" and dj: "set p \<inter> set (concat ps) = {}"
    by auto
  have sub: "set (ps ! m) \<subseteq> set (concat ps)" if "m < length ps" for m
    using that by (auto intro: nth_mem)
  show ?case
  proof (cases i)
    case 0
    with Cons.prems obtain j' where j': "j = Suc j'" "j' < length ps" by (cases j) auto
    with 0 dj sub[of j'] show ?thesis by auto
  next
    case (Suc i')
    show ?thesis
    proof (cases j)
      case 0
      with Suc Cons.prems dj sub[of i'] show ?thesis by auto
    next
      case (Suc j')
      with \<open>i = Suc i'\<close> Cons.prems Cons.IH[OF d, of i' j'] show ?thesis by auto
    qed
  qed
qed

lemma exactly_one_partition:
  assumes "mset (concat ps) = mset [0..<dc]" "i < dc"
  shows "\<exists>!j. j < length ps \<and> i \<in> set (ps ! j)"
proof -
  have d: "distinct (concat ps)"
    using assms(1) by (metis distinct_upt mset_eq_imp_distinct_iff)
  have "set (concat ps) = set [0..<dc]" using assms(1) by (rule mset_eq_setD)
  with assms(2) have "i \<in> set (concat ps)" by simp
  then obtain p where "p \<in> set ps" "i \<in> set p" by auto
  then obtain j where j: "j < length ps" "i \<in> set (ps ! j)" by (auto simp: in_set_conv_nth)
  show ?thesis
  proof (rule ex1I[of _ j])
    show "j < length ps \<and> i \<in> set (ps ! j)" using j by simp
  next
    fix j' assume j': "j' < length ps \<and> i \<in> set (ps ! j')"
    show "j' = j"
    proof (rule ccontr)
      assume "j' \<noteq> j"
      with distinct_concat_disjoint[OF d, of j' j] j j' show False by auto
    qed
  qed
qed

section \<open>Finite vectors\<close>


lemma foldl_fadd_Fin:
  "foldl fadd (Fin a) (map (\<lambda>i. Fin (f i)) xs) = Fin (a + sum_list (map f xs))"
  by (induction xs arbitrary: a) (simp_all add: add.assoc)

lemma fadd_NaN [simp]: "fadd a NaN = NaN" "fadd NaN a = NaN"
  by (cases a; simp)+

lemma fmul_NaN [simp]: "fmul a NaN = NaN" "fmul NaN a = NaN"
  by (cases a; simp)+

lemma fdiv_NaN [simp]: "fdiv a NaN = NaN" "fdiv NaN a = NaN"
  by (cases a; simp)+

lemma foldl_fadd_NaN: "foldl fadd NaN xs = NaN"
  by (induction xs) simp_all

lemma foldl_fadd_has_NaN: "NaN \<in> set xs \<Longrightarrow> foldl fadd a xs = NaN"
  by (induction xs arbitrary: a) (auto simp: foldl_fadd_NaN)

lemma sum_list_upt: "sum_list (map f [0..<n]) = (\<Sum>i<n. f i)"
  by (simp add: interv_sum_list_conv_sum_set_nat atLeast0LessThan)

lemma vec_dot_Fin:
  assumes "length a = n" "length b = n"
  shows "vec_dot (map Fin a) (map Fin b) n = Fin (\<Sum>i<n. a ! i * b ! i)"
proof -
  have e: "map (\<lambda>i. fmul (map Fin a ! i) (map Fin b ! i)) [0..<n] = map (\<lambda>i. Fin (a ! i * b ! i)) [0..<n]"
    using assms by (intro map_cong) auto
  show ?thesis
    unfolding vec_dot_def e by (simp add: foldl_fadd_Fin sum_list_upt)
qed

lemma vec_dot_NaN:
  assumes "i < n" "a ! i = NaN \<or> b ! i = NaN"
  shows "vec_dot a b n = NaN"
proof -
  have "fmul (a ! i) (b ! i) = NaN" using assms(2) by auto
  moreover have "fmul (a ! i) (b ! i) \<in> set (map (\<lambda>i. fmul (a ! i) (b ! i)) [0..<n])"
    using assms(1) by (auto simp: image_iff simp del: fmul.simps intro!: bexI[of _ i])
  ultimately have "NaN \<in> set (map (\<lambda>i. fmul (a ! i) (b ! i)) [0..<n])" by simp
  then show ?thesis unfolding vec_dot_def by (rule foldl_fadd_has_NaN)
qed

lemma vec_norm_Fin:
  assumes "length a = n"
  shows "vec_norm (map Fin a) n = Fin (sqrt (\<Sum>i<n. a ! i * a ! i))"
proof -
  have "0 \<le> (\<Sum>i<n. a ! i * a ! i)" by (intro sum_nonneg) simp
  then show ?thesis by (simp add: vec_norm_def vec_dot_Fin[OF assms assms])
qed

lemma vec_multiply_Fin:
  assumes "length a = n"
  shows "vec_multiply (map Fin a) n (Fin s) = map Fin (map (\<lambda>x. x * s) a)"
  using assms by (simp add: vec_multiply_def o_def)

lemma vec_divide_Fin:
  assumes "length a = n" "s \<noteq> 0"
  shows "vec_divide (map Fin a) n (Fin s) = map Fin (map (\<lambda>x. x / s) a)"
  using assms by (simp add: vec_divide_def o_def)

lemma vec_divide_zero:
  assumes "length a = n" "\<forall>x\<in>set a. x = 0"
  shows "vec_divide (map Fin a) n (Fin 0) = replicate n NaN"
  using assms by (simp add: vec_divide_def o_def map_replicate_const cong: map_cong)

lemma vec_divide_by_NaN:
  assumes "length a = n"
  shows "vec_divide a n NaN = replicate n NaN"
  using assms by (simp add: vec_divide_def map_replicate_const)

lemma sum_squares_zero_iff:
  "(\<Sum>i<n. (a::real list) ! i * a ! i) = 0 \<longleftrightarrow> (\<forall>i<n. a ! i = 0)"
proof -
  have "(\<Sum>i<n. a ! i * a ! i) = 0 \<longleftrightarrow> (\<forall>i\<in>{..<n}. a ! i * a ! i = 0)"
    by (intro sum_nonneg_eq_0_iff) simp_all
  then show ?thesis by auto
qed

lemma rdot_nonneg: "0 \<le> rdot a a"
  unfolding rdot_def by (intro sum_nonneg) simp

lemma rnorm_nonneg: "0 \<le> rnorm a"
  by (simp add: rnorm_def rdot_nonneg)

lemma rnorm_sq: "rnorm a * rnorm a = rdot a a"
  by (simp add: rnorm_def rdot_nonneg)

lemma rdot_zero_iff: "rdot a a = 0 \<longleftrightarrow> (\<forall>i<length a. a ! i = 0)"
  unfolding rdot_def by (rule sum_squares_zero_iff)

lemma rnorm_zero_iff: "rnorm a = 0 \<longleftrightarrow> (\<forall>i<length a. a ! i = 0)"
  by (simp add: rnorm_def rdot_zero_iff)

lemma vec_dot_rdot:
  "length a = n \<Longrightarrow> length b = n \<Longrightarrow> vec_dot (map Fin a) (map Fin b) n = Fin (rdot a b)"
  by (simp add: vec_dot_Fin rdot_def)

lemma vec_norm_rnorm: "length a = n \<Longrightarrow> vec_norm (map Fin a) n = Fin (rnorm a)"
  by (simp add: vec_norm_Fin rnorm_def rdot_def)

lemma rdot_scale_left: "rdot (map (\<lambda>x. x * c) a) b = c * rdot a b"
  by (simp add: rdot_def sum_distrib_left mult_ac)

lemma rdot_scale_right: "length b = length a \<Longrightarrow> rdot a (map (\<lambda>x. x * c) b) = c * rdot a b"
  by (simp add: rdot_def sum_distrib_left mult_ac)

lemma rdot_div_left: "rdot (map (\<lambda>x. x / c) a) b = rdot a b / c"
  using rdot_scale_left[of "1 / c" a b] by (simp add: divide_inverse mult_ac)

lemma rdot_div_right: "length b = length a \<Longrightarrow> rdot a (map (\<lambda>x. x / c) b) = rdot a b / c"
  using rdot_scale_right[of b a "1 / c"] by (simp add: divide_inverse mult_ac)

lemma rdot_normalized:
  assumes "rnorm a \<noteq> 0"
  shows "rdot (map (\<lambda>x. x / rnorm a) a) (map (\<lambda>x. x / rnorm a) a) = 1"
proof -
  have "rdot (map (\<lambda>x. x / rnorm a) a) (map (\<lambda>x. x / rnorm a) a) = rdot a a / rnorm a / rnorm a"
    by (simp add: rdot_div_left rdot_div_right)
  also have "\<dots> = 1" using assms by (simp add: rnorm_sq[symmetric])
  finally show ?thesis .
qed

lemma vec_normalize_Fin:
  assumes "length a = n" "rnorm a \<noteq> 0"
  shows "vec_normalize (map Fin a) n = map Fin (map (\<lambda>x. x / rnorm a) a)"
  using assms by (simp add: vec_normalize_def vec_norm_rnorm vec_divide_Fin)

lemma vec_normalize_zero:
  assumes "length a = n" "rnorm a = 0"
  shows "vec_normalize (map Fin a) n = replicate n NaN"
proof -
  have "\<forall>x\<in>set a. x = 0" using assms(2) by (auto simp: rnorm_zero_iff in_set_conv_nth)
  then show ?thesis using assms by (simp add: vec_normalize_def vec_norm_rnorm vec_divide_zero)
qed

lemma vec_sum_Fin:
  assumes "\<forall>j<m. \<forall>w<n. part ! j ! w = Fin (r j w)"
  shows "vec_sum part n m = map Fin (map (\<lambda>w. \<Sum>j<m. r j w) [0..<n])"
proof -
  have "foldl fadd (Fin 0) (map (\<lambda>j. part ! j ! w) [0..<m]) = Fin (\<Sum>j<m. r j w)" if "w < n" for w
  proof -
    have e: "map (\<lambda>j. part ! j ! w) [0..<m] = map (\<lambda>j. Fin (r j w)) [0..<m]"
      using assms that by (intro map_cong) auto
    show ?thesis unfolding e by (simp add: foldl_fadd_Fin sum_list_upt)
  qed
  then show ?thesis by (simp add: vec_sum_def)
qed

lemma computeConcept_Fin:
  assumes "vec_sum part wc p_size = map Fin s" "length s = wc" "rnorm s \<noteq> 0"
  shows "computeConcept part p_size wc = map Fin (map (\<lambda>x. x / rnorm s) s)"
proof -
  have wc: "0 < wc" using assms(2,3) by (auto simp: rnorm_zero_iff)
  let ?t = "map (\<lambda>x. x * (1 / real wc)) s"
  have nt: "rnorm ?t = rnorm s / real wc"
  proof -
    have "rdot ?t ?t = rdot s s / real wc / real wc"
      by (simp add: rdot_div_left rdot_div_right)
    also have "\<dots> = (rnorm s / real wc) * (rnorm s / real wc)"
      by (simp add: rnorm_sq[symmetric])
    finally have "rnorm ?t = sqrt ((rnorm s / real wc) * (rnorm s / real wc))"
      by (simp add: rnorm_def)
    also have "\<dots> = \<bar>rnorm s / real wc\<bar>" by (rule real_sqrt_abs2)
    also have "\<dots> = rnorm s / real wc" using rnorm_nonneg[of s] by simp
    finally show ?thesis .
  qed
  have ne: "rnorm ?t \<noteq> 0" using nt assms(3) wc by simp
  have sc: "fdiv (Fin 1) (Fin (real wc)) = Fin (1 / real wc)" using wc by simp
  have "computeConcept part p_size wc = vec_divide (map Fin ?t) wc (vec_norm (map Fin ?t) wc)"
    unfolding computeConcept_def Let_def assms(1) sc
    by (simp only: vec_multiply_Fin[OF assms(2)])
  also have "\<dots> = map Fin (map (\<lambda>x. x / rnorm ?t) ?t)"
  proof -
    have len: "length ?t = wc" using assms(2) by simp
    show ?thesis
      by (simp only: vec_norm_rnorm[OF len] vec_divide_Fin[OF len ne])
  qed
  also have "map (\<lambda>x. x / rnorm ?t) ?t = map (\<lambda>x. x / rnorm s) s"
  proof -
    have "x * (1 / real wc) / rnorm ?t = x / rnorm s" for x
      unfolding nt using wc assms(3) by simp
    then show ?thesis by (simp only: map_map o_def)
  qed
  finally show ?thesis .
qed

lemma fdiv_one: "fdiv a (Fin 1) = a"
  by (cases a) simp_all

lemma cosine_unit:
  assumes "vec_norm dv wc = Fin 1" "vec_norm cv wc = Fin 1"
  shows "cosineSimilarity dv cv wc = vec_dot dv cv wc"
  by (simp add: cosineSimilarity_def assms fdiv_one)


lemma unit_norm_txn:
  assumes "length a = n" "rnorm a \<noteq> 0"
  shows "vec_norm (vec_normalize (map Fin a) n) n = Fin 1"
proof -
  have "vec_norm (vec_normalize (map Fin a) n) n = Fin (rnorm (map (\<lambda>x. x / rnorm a) a))"
    unfolding vec_normalize_Fin[OF assms] using assms(1) by (intro vec_norm_rnorm) simp
  also have "rnorm (map (\<lambda>x. x / rnorm a) a) = 1"
    unfolding rnorm_def[of "map (\<lambda>x. x / rnorm a) a"] using rdot_normalized[OF assms(2)] by simp
  finally show ?thesis .
qed



lemma all_less_2: "(\<forall>i<(2::nat). P i) \<longleftrightarrow> P 0 \<and> P 1"
  by (auto simp: less_Suc_eq numeral_2_eq_2)


lemma replicate_2: "replicate 2 x = [x, x]"
  by (simp add: numeral_2_eq_2)


section \<open>A run on an input with a zero document\<close>


lemma E3_txn: "txnScheme [[Fin 0, Fin 0], [Fin 1, Fin 0]] 2 2 = [[NaN, NaN], [Fin 1, Fin 0]]"
  by (simp add: eval_defs upt_2)

lemma E3_before: "beforeLoop [[NaN, NaN], [Fin 1, Fin 0]] 2 2 2 =
   \<lparr> data = \<lparr> cd_k = 2, cd_dc = 2, cd_wc = 2, partitions = [[0], [1]], p_sizes = [1, 1],
               concepts = [[NaN, NaN], [Fin 1, Fin 0]] \<rparr>,
     quality = NaN, dQ = Fin (1/100), iterations = 0 \<rparr>"
  by (simp add: beforeLoop_def eval_defs createPartitions.simps upt_2 real_sqrt_divide)

lemma E3_body: "loopBody [[NaN, NaN], [Fin 1, Fin 0]] (beforeLoop [[NaN, NaN], [Fin 1, Fin 0]] 2 2 2) =
   \<lparr> data = \<lparr> cd_k = 2, cd_dc = 2, cd_wc = 2, partitions = [[0, 1], []], p_sizes = [2, 0],
               concepts = [[NaN, NaN], [NaN, NaN]] \<rparr>,
     quality = NaN, dQ = NaN, iterations = 1 \<rparr>"
  unfolding E3_before
  by (simp add: loopBody_def eval_defs closestLoop.simps upt_2 replicate_2 real_sqrt_divide)

lemma E3_run: "runSPKMeans_locals [[Fin 0, Fin 0], [Fin 1, Fin 0]] 2 2 2 =
   Some \<lparr> data = \<lparr> cd_k = 2, cd_dc = 2, cd_wc = 2, partitions = [[0, 1], []], p_sizes = [2, 0],
               concepts = [[NaN, NaN], [NaN, NaN]] \<rparr>,
     quality = NaN, dQ = NaN, iterations = 1 \<rparr>"
proof -
  let ?D = "[[NaN, NaN], [Fin 1, Fin 0]]"
  have v: "valid_input [[Fin 0, Fin 0], [Fin 1, Fin 0]] 2 2 2" by (simp add: valid_input_def)
  have "spkLoop ?D (beforeLoop ?D 2 2 2) = spkLoop ?D (loopBody ?D (beforeLoop ?D 2 2 2))"
    by (subst spkLoop.simps) (simp add: dQ_beforeLoop)
  also have "\<dots> = Some (loopBody ?D (beforeLoop ?D 2 2 2))"
    by (subst spkLoop.simps) (simp add: E3_body)
  finally show ?thesis
    using v by (simp add: runSPKMeans_locals_def E3_txn E3_body)
qed

section \<open>Quality, termination and monotonicity\<close>

lemma length_rsum [simp]: "length (rsum U part wc) = wc"
  by (simp add: rsum_def)

lemma sum_nth_list: "(\<Sum>j<length xs. f (xs ! j)) = (\<Sum>x\<leftarrow>xs. f x)"
proof -
  have "(\<Sum>x\<leftarrow>xs. f x) = (\<Sum>i = 0..<length (map f xs). map f xs ! i)"
    by (rule sum_list_sum_nth)
  also have "\<dots> = (\<Sum>j<length xs. f (xs ! j))"
    by (simp add: lessThan_atLeast0)
  finally show ?thesis by simp
qed

lemma vec_sum_rows:
  assumes "\<forall>r\<in>set part. r < length U" "\<forall>u\<in>set U. length u = wc"
  shows "vec_sum (rows (map (map Fin) U) part) wc (length part) = map Fin (rsum U part wc)"
proof -
  have "\<forall>j<length part. \<forall>w<wc. rows (map (map Fin) U) part ! j ! w = Fin (U ! (part ! j) ! w)"
    using assms by (simp add: rows_def)
  then have "vec_sum (rows (map (map Fin) U) part) wc (length part) =
      map Fin (map (\<lambda>w. \<Sum>j<length part. U ! (part ! j) ! w) [0..<wc])"
    by (rule vec_sum_Fin)
  also have "(\<lambda>w. \<Sum>j<length part. U ! (part ! j) ! w) = (\<lambda>w. \<Sum>r\<leftarrow>part. U ! r ! w)"
    by (rule ext) (rule sum_nth_list)
  finally show ?thesis by (simp only: rsum_def)
qed

lemma rdot_self_normalized:
  assumes "rnorm s \<noteq> 0"
  shows "rdot s (map (\<lambda>x. x / rnorm s) s) = rnorm s"
proof -
  have "rdot s (map (\<lambda>x. x / rnorm s) s) = rdot s s / rnorm s"
    by (simp add: rdot_div_right)
  also have "\<dots> = rnorm s" using assms by (simp add: rnorm_sq[symmetric])
  finally show ?thesis .
qed

lemma computeConcept_zero:
  assumes "vec_sum part wc p_size = map Fin s" "length s = wc" "rnorm s = 0"
  shows "computeConcept part p_size wc = replicate wc NaN"
proof (cases "wc = 0")
  case True
  with assms(2) show ?thesis
    by (simp add: computeConcept_def Let_def vec_sum_def vec_multiply_def vec_divide_def)
next
  case False
  let ?t = "map (\<lambda>x. x * (1 / real wc)) s"
  have z: "\<forall>x\<in>set s. x = 0" using assms(3) by (auto simp: rnorm_zero_iff in_set_conv_nth)
  then have tz: "\<forall>x\<in>set ?t. x = 0" by simp
  have len: "length ?t = wc" using assms(2) by simp
  have "\<forall>i<length ?t. ?t ! i = 0" using tz by (metis nth_mem)
  then have nt: "rnorm ?t = 0" by (simp only: rnorm_zero_iff)
  have sc: "fdiv (Fin 1) (Fin (real wc)) = Fin (1 / real wc)" using False by simp
  have "computeConcept part p_size wc = vec_divide (map Fin ?t) wc (vec_norm (map Fin ?t) wc)"
    unfolding computeConcept_def Let_def assms(1) sc
    by (simp only: vec_multiply_Fin[OF assms(2)])
  also have "\<dots> = replicate wc NaN"
    by (simp only: vec_norm_rnorm[OF len] nt vec_divide_zero[OF len tz])
  finally show ?thesis .
qed

lemma partQuality_Fin:
  assumes "\<forall>r\<in>set part. r < length U" "\<forall>u\<in>set U. length u = wc"
    and "rnorm (rsum U part wc) \<noteq> 0"
  shows "computeConcept (rows (map (map Fin) U) part) (length part) wc =
           map Fin (map (\<lambda>x. x / rnorm (rsum U part wc)) (rsum U part wc))"
    and "partQuality (map (map Fin) U) part wc = Fin (rnorm (rsum U part wc))"
proof -
  note vs = vec_sum_rows[OF assms(1,2)]
  show cc: "computeConcept (rows (map (map Fin) U) part) (length part) wc =
           map Fin (map (\<lambda>x. x / rnorm (rsum U part wc)) (rsum U part wc))"
    using vs length_rsum assms(3) by (rule computeConcept_Fin)
  have "partQuality (map (map Fin) U) part wc =
      vec_dot (map Fin (rsum U part wc)) (map Fin (map (\<lambda>x. x / rnorm (rsum U part wc)) (rsum U part wc))) wc"
    unfolding partQuality_def computeQuality_partition_def Let_def cc vs ..
  also have "\<dots> = Fin (rdot (rsum U part wc) (map (\<lambda>x. x / rnorm (rsum U part wc)) (rsum U part wc)))"
    by (rule vec_dot_rdot) simp_all
  also have "\<dots> = Fin (rnorm (rsum U part wc))"
    by (simp only: rdot_self_normalized[OF assms(3)])
  finally show "partQuality (map (map Fin) U) part wc = Fin (rnorm (rsum U part wc))" .
qed

lemma vec_dot_replicate_NaN: "0 < n \<Longrightarrow> vec_dot a (replicate n NaN) n = NaN"
  by (rule vec_dot_NaN[of 0]) simp_all

lemma partQuality_NaN:
  assumes "\<forall>r\<in>set part. r < length U" "\<forall>u\<in>set U. length u = wc"
    and "rnorm (rsum U part wc) = 0" "0 < wc"
  shows "computeConcept (rows (map (map Fin) U) part) (length part) wc = replicate wc NaN"
    and "partQuality (map (map Fin) U) part wc = NaN"
proof -
  note vs = vec_sum_rows[OF assms(1,2)]
  show cc: "computeConcept (rows (map (map Fin) U) part) (length part) wc = replicate wc NaN"
    using vs length_rsum assms(3) by (rule computeConcept_zero)
  show "partQuality (map (map Fin) U) part wc = NaN"
    unfolding partQuality_def computeQuality_partition_def Let_def cc
    by (rule vec_dot_replicate_NaN[OF assms(4)])
qed

lemma computeQuality_partQuality:
  assumes "length parts = k" "sizes = map (\<lambda>p. int (length p)) parts"
  shows "computeQuality D parts sizes (computeConcepts D parts sizes k wc) k wc =
     foldl fadd (Fin 0) (map (\<lambda>p. partQuality D p wc) parts)"
proof -
  have "computeQuality D parts sizes (computeConcepts D parts sizes k wc) k wc =
      foldl fadd (Fin 0) (map (\<lambda>i. partQuality D (parts ! i) wc) [0..<k])"
    unfolding computeQuality_def computeConcepts_def foldl_map
    using assms by (intro foldl_cong) (simp_all add: partQuality_def)
  also have "map (\<lambda>i. partQuality D (parts ! i) wc) [0..<k] = map (\<lambda>p. partQuality D p wc) parts"
    using assms(1) by (auto intro!: nth_equalityI)
  finally show ?thesis .
qed

lemma computeConcepts_map:
  assumes "length parts = k" "sizes = map (\<lambda>p. int (length p)) parts"
  shows "computeConcepts D parts sizes k wc = map (\<lambda>p. computeConcept (rows D p) (length p) wc) parts"
  using assms unfolding computeConcepts_def by (auto intro!: nth_equalityI)

lemma coherent_beforeLoop:
  assumes "0 < k"
  shows "coherent D k dc wc (beforeLoop D k dc wc)"
proof -
  let ?s = "beforeLoop D k dc wc"
  note bp = beforeLoop_partitions[OF assms, of D dc wc]
  have cs: "concepts (data ?s) = computeConcepts D (partitions (data ?s)) (p_sizes (data ?s)) k wc"
    by (simp add: beforeLoop_def Let_def)
  have q: "quality ?s = computeQuality D (partitions (data ?s)) (p_sizes (data ?s))
        (computeConcepts D (partitions (data ?s)) (p_sizes (data ?s)) k wc) k wc"
    by (simp add: beforeLoop_def Let_def)
  show ?thesis
    unfolding coherent_def qualityOf_def
    using bp beforeLoop_params[of D k dc wc]
      cs[unfolded computeConcepts_map[OF bp(2,3)]]
      q[unfolded computeQuality_partQuality[OF bp(2,3)]]
    by simp
qed

lemma coherent_loopBody:
  assumes "0 < k" "coherent D k dc wc s"
  shows "coherent D k dc wc (loopBody D s)"
    and "dQ (loopBody D s) = fsub (quality (loopBody D s)) (quality s)"
    and "partitions (data (loopBody D s)) =
       map (\<lambda>j. filter (\<lambda>i. closestConcept (D ! i) (concepts (data s)) k wc = j) [0..<dc]) [0..<k]"
proof -
  let ?t = "loopBody D s"
  from assms(2) have k: "cd_k (data s) = k" and dc: "cd_dc (data s) = dc" and wc: "cd_wc (data s) = wc"
    by (simp_all add: coherent_def)
  have pos: "0 < cd_k (data s)" using k assms(1) by simp
  let ?c = "\<lambda>i. closestConcept (D ! i) (concepts (data s)) k wc"
  show parts: "partitions (data ?t) = map (\<lambda>j. filter (\<lambda>i. ?c i = j) [0..<dc]) [0..<k]"
    unfolding loopBody_partitions(1)[OF pos] k dc wc ..
  have sz: "p_sizes (data ?t) = map (\<lambda>p. int (length p)) (partitions (data ?t))"
    by (rule loopBody_partitions(2)[OF pos])
  have len: "length (partitions (data ?t)) = k" by (simp add: parts)
  have "mset (concat (partitions (data ?t))) = mset (filter (\<lambda>i. ?c i < k) [0..<dc])"
    unfolding parts by (rule mset_concat_filter)
  also have "\<dots> = mset [0..<dc]"
    using closestConcept_spec[OF assms(1)] by simp
  finally have ms: "mset (concat (partitions (data ?t))) = mset [0..<dc]" .
  have cs: "concepts (data ?t) = computeConcepts D (partitions (data ?t)) (p_sizes (data ?t)) k wc"
    by (simp add: loopBody_def Let_def k wc)
  have q: "quality ?t = computeQuality D (partitions (data ?t)) (p_sizes (data ?t))
        (computeConcepts D (partitions (data ?t)) (p_sizes (data ?t)) k wc) k wc"
    by (simp add: loopBody_def Let_def k wc)
  show "coherent D k dc wc ?t"
    unfolding coherent_def qualityOf_def
    using len ms sz loopBody_params[of D s] k dc wc
      cs[unfolded computeConcepts_map[OF len sz]]
      q[unfolded computeQuality_partQuality[OF len sz]]
    by simp
  show "dQ ?t = fsub (quality ?t) (quality s)"
    by (simp add: loopBody_def Let_def)
qed

lemma coherent_funpow:
  assumes "0 < k"
  shows "coherent D k dc wc ((loopBody D ^^ n) (beforeLoop D k dc wc))"
  by (induction n) (simp_all add: coherent_beforeLoop[OF assms] coherent_loopBody(1)[OF assms])

lemma dQ_funpow_Suc:
  assumes "0 < k"
  shows "dQ ((loopBody D ^^ Suc n) (beforeLoop D k dc wc)) =
     fsub (quality ((loopBody D ^^ Suc n) (beforeLoop D k dc wc)))
          (quality ((loopBody D ^^ n) (beforeLoop D k dc wc)))"
  using coherent_loopBody(2)[OF assms coherent_funpow[OF assms, of D dc wc n]] by simp

lemma cauchy_schwarz_sum:
  fixes a b :: "nat \<Rightarrow> real"
  shows "(\<Sum>i<n. a i * b i)\<^sup>2 \<le> (\<Sum>i<n. (a i)\<^sup>2) * (\<Sum>i<n. (b i)\<^sup>2)"
proof -
  define A where "A = (\<Sum>i<n. (a i)\<^sup>2)"
  define B where "B = (\<Sum>i<n. (b i)\<^sup>2)"
  define C where "C = (\<Sum>i<n. a i * b i)"
  have B0: "0 \<le> B" unfolding B_def by (intro sum_nonneg) simp
  have "0 \<le> (\<Sum>i<n. (a i * B - b i * C)\<^sup>2)" by (intro sum_nonneg) simp
  also have "(\<Sum>i<n. (a i * B - b i * C)\<^sup>2) =
      (\<Sum>i<n. (a i)\<^sup>2 * (B * B) - (a i * b i) * (2 * B * C) + (b i)\<^sup>2 * (C * C))"
    by (intro sum.cong refl) (simp add: power2_eq_square algebra_simps)
  also have "\<dots> = A * (B * B) - C * (2 * B * C) + B * (C * C)"
    by (simp add: sum.distrib sum_subtractf sum_distrib_right[symmetric] A_def B_def C_def)
  also have "\<dots> = B * (A * B - C\<^sup>2)"
    by (simp add: power2_eq_square algebra_simps)
  finally have nn: "0 \<le> B * (A * B - C\<^sup>2)" .
  show ?thesis
  proof (cases "B = 0")
    case True
    then have "\<forall>i\<in>{..<n}. (b i)\<^sup>2 = 0"
      unfolding B_def by (subst (asm) sum_nonneg_eq_0_iff) simp_all
    then have "C = 0" unfolding C_def by simp
    with True show ?thesis unfolding A_def[symmetric] B_def[symmetric] C_def[symmetric] by simp
  next
    case False
    with B0 have "0 < B" by simp
    with nn have "0 \<le> A * B - C\<^sup>2" by (simp add: zero_le_mult_iff)
    then show ?thesis unfolding A_def[symmetric] B_def[symmetric] C_def[symmetric] by simp
  qed
qed

lemma rdot_le_rnorm:
  assumes "length b = length a"
  shows "rdot a b \<le> rnorm a * rnorm b"
proof -
  have "(rdot a b)\<^sup>2 \<le> rdot a a * rdot b b"
    using cauchy_schwarz_sum[of "\<lambda>i. a ! i" "\<lambda>i. b ! i" "length a"] assms
    by (simp add: rdot_def power2_eq_square)
  then have "sqrt ((rdot a b)\<^sup>2) \<le> sqrt (rdot a a * rdot b b)"
    by (simp only: real_sqrt_le_iff)
  moreover have "sqrt ((rdot a b)\<^sup>2) = \<bar>rdot a b\<bar>" by simp
  moreover have "sqrt (rdot a a * rdot b b) = rnorm a * rnorm b"
    by (simp add: rnorm_def real_sqrt_mult)
  ultimately have "\<bar>rdot a b\<bar> \<le> rnorm a * rnorm b" by simp
  then show ?thesis by simp
qed

lemma rnorm_normalized:
  assumes "rnorm a \<noteq> 0"
  shows "rnorm (map (\<lambda>x. x / rnorm a) a) = 1"
  by (subst rnorm_def) (simp only: rdot_normalized[OF assms] real_sqrt_one)

lemma rdot_rsum:
  assumes "length c = wc"
  shows "rdot (rsum U part wc) c = (\<Sum>r\<leftarrow>part. \<Sum>w<wc. U ! r ! w * c ! w)"
proof -
  have "rdot (rsum U part wc) c = (\<Sum>w<wc. (\<Sum>r\<leftarrow>part. U ! r ! w) * c ! w)"
    by (simp add: rdot_def rsum_def)
  also have "\<dots> = (\<Sum>w<wc. \<Sum>r\<leftarrow>part. U ! r ! w * c ! w)"
    by (simp add: sum_list_mult_const)
  also have "\<dots> = (\<Sum>r\<leftarrow>part. \<Sum>w<wc. U ! r ! w * c ! w)"
    by (induction part) (simp_all add: sum.distrib)
  finally show ?thesis .
qed

lemma rdot_row:
  assumes "length u = wc"
  shows "(\<Sum>w<wc. u ! w * c ! w) = rdot u c"
  using assms by (simp add: rdot_def)

lemma rnorm_rsum_le:
  assumes "\<forall>r\<in>set part. r < length U" "\<forall>u\<in>set U. length u = wc \<and> rdot u u = 1"
  shows "rnorm (rsum U part wc) \<le> real (length part)"
proof (cases "rnorm (rsum U part wc) = 0")
  case True
  then show ?thesis by simp
next
  case False
  let ?s = "rsum U part wc"
  let ?c = "map (\<lambda>x. x / rnorm ?s) ?s"
  have c1: "rnorm ?c = 1" by (rule rnorm_normalized[OF False])
  have row: "(\<Sum>w<wc. U ! r ! w * ?c ! w) \<le> 1" if "r \<in> set part" for r
  proof -
    from that assms have u: "length (U ! r) = wc" "rdot (U ! r) (U ! r) = 1" by auto
    have "(\<Sum>w<wc. U ! r ! w * ?c ! w) = rdot (U ! r) ?c" by (rule rdot_row[OF u(1)])
    also have "\<dots> \<le> rnorm (U ! r) * rnorm ?c" by (rule rdot_le_rnorm) (simp add: u(1))
    also have "\<dots> = 1"
    proof -
      have "rnorm (U ! r) = 1" by (subst rnorm_def) (simp add: u(2))
      then show ?thesis by (simp only: c1 mult_1)
    qed
    finally show ?thesis .
  qed
  have "rnorm ?s = rdot ?s ?c" by (simp only: rdot_self_normalized[OF False])
  also have "\<dots> = (\<Sum>r\<leftarrow>part. \<Sum>w<wc. U ! r ! w * ?c ! w)" by (rule rdot_rsum) simp
  also have "\<dots> \<le> (\<Sum>r\<leftarrow>part. 1)" using row by (intro sum_list_mono) simp
  also have "\<dots> = real (length part)" by (simp add: sum_list_triv)
  finally show ?thesis .
qed

lemma qualityOf_Fin:
  assumes "\<forall>p\<in>set parts. \<forall>r\<in>set p. r < length U" "\<forall>u\<in>set U. length u = wc"
    and "\<forall>p\<in>set parts. rnorm (rsum U p wc) \<noteq> 0"
  shows "qualityOf (map (map Fin) U) parts wc = Fin (\<Sum>p\<leftarrow>parts. rnorm (rsum U p wc))"
proof -
  have "map (\<lambda>p. partQuality (map (map Fin) U) p wc) parts = map (\<lambda>p. Fin (rnorm (rsum U p wc))) parts"
    using assms by (intro map_cong refl partQuality_Fin(2)) auto
  then show ?thesis
    unfolding qualityOf_def by (simp only: foldl_fadd_Fin) simp
qed

lemma qualityOf_NaN:
  assumes "\<forall>p\<in>set parts. \<forall>r\<in>set p. r < length U" "\<forall>u\<in>set U. length u = wc"
    and "p \<in> set parts" "rnorm (rsum U p wc) = 0" "0 < wc"
  shows "qualityOf (map (map Fin) U) parts wc = NaN"
proof -
  have "partQuality (map (map Fin) U) p wc = NaN"
    using assms by (intro partQuality_NaN(2)) auto
  then have "NaN \<in> set (map (\<lambda>p. partQuality (map (map Fin) U) p wc) parts)"
    using assms(3) by force
  then show ?thesis unfolding qualityOf_def by (rule foldl_fadd_has_NaN)
qed

lemma sum_norms_bounds:
  assumes "\<forall>p\<in>set parts. \<forall>r\<in>set p. r < length U"
    and "\<forall>u\<in>set U. length u = wc \<and> rdot u u = 1"
  shows "0 \<le> (\<Sum>p\<leftarrow>parts. rnorm (rsum U p wc))"
    and "(\<Sum>p\<leftarrow>parts. rnorm (rsum U p wc)) \<le> real (length (concat parts))"
proof -
  show "0 \<le> (\<Sum>p\<leftarrow>parts. rnorm (rsum U p wc))"
    by (intro sum_list_nonneg) (auto simp: rnorm_nonneg)
  have "(\<Sum>p\<leftarrow>parts. rnorm (rsum U p wc)) \<le> (\<Sum>p\<leftarrow>parts. real (length p))"
    using assms by (intro sum_list_mono rnorm_rsum_le) auto
  also have "\<dots> = real (length (concat parts))"
    by (induction parts) simp_all
  finally show "(\<Sum>p\<leftarrow>parts. rnorm (rsum U p wc)) \<le> real (length (concat parts))" .
qed

lemma qualityOf_cases:
  assumes "\<forall>p\<in>set parts. \<forall>r\<in>set p. r < length U"
    and "\<forall>u\<in>set U. length u = wc \<and> rdot u u = 1" "0 < wc"
  shows "qualityOf (map (map Fin) U) parts wc = NaN \<or>
     (\<exists>q. qualityOf (map (map Fin) U) parts wc = Fin q \<and> 0 \<le> q \<and> q \<le> real (length (concat parts)))"
proof (cases "\<forall>p\<in>set parts. rnorm (rsum U p wc) \<noteq> 0")
  case True
  have "qualityOf (map (map Fin) U) parts wc = Fin (\<Sum>p\<leftarrow>parts. rnorm (rsum U p wc))"
    using assms(1) _ True by (rule qualityOf_Fin) (use assms(2) in simp)
  with sum_norms_bounds[OF assms(1,2)] show ?thesis by blast
next
  case False
  then obtain p where "p \<in> set parts" "rnorm (rsum U p wc) = 0" by blast
  then have "qualityOf (map (map Fin) U) parts wc = NaN"
    using assms by (intro qualityOf_NaN[of parts U wc p]) auto
  then show ?thesis by simp
qed

text \<open>A document with a \<open>NaN\<close> element makes every quality \<open>NaN\<close>.\<close>

lemma vec_sum_NaN:
  assumes "j < m" "w < n" "vs ! j ! w = NaN"
  shows "vec_sum vs n m ! w = NaN"
proof -
  have "NaN \<in> set (map (\<lambda>j. vs ! j ! w) [0..<m])"
    using assms(1,3) by (auto simp: image_iff intro!: bexI[of _ j])
  then have "foldl fadd (Fin 0) (map (\<lambda>j. vs ! j ! w) [0..<m]) = NaN"
    by (rule foldl_fadd_has_NaN)
  then show ?thesis using assms(2) by (simp add: vec_sum_def)
qed

lemma length_vec_sum [simp]: "length (vec_sum vs n m) = n"
  by (simp add: vec_sum_def)

lemma computeConcept_NaN:
  assumes "w < wc" "vec_sum part wc p_size ! w = NaN"
  shows "computeConcept part p_size wc = replicate wc NaN"
proof -
  let ?cv = "vec_multiply (vec_sum part wc p_size) wc (fdiv (Fin 1) (Fin (real wc)))"
  have len: "length ?cv = wc" by (simp add: vec_multiply_def)
  have "?cv ! w = NaN" using assms by (simp add: vec_multiply_def del: fdiv.simps)
  then have nrm: "vec_norm ?cv wc = NaN"
    using assms(1) by (simp add: vec_norm_def vec_dot_NaN[of w] del: fdiv.simps)
  have "computeConcept part p_size wc = vec_divide ?cv wc (vec_norm ?cv wc)"
    by (simp only: computeConcept_def Let_def)
  also have "\<dots> = vec_divide ?cv wc NaN" by (simp only: nrm)
  also have "\<dots> = replicate wc NaN" by (rule vec_divide_by_NaN[OF len])
  finally show ?thesis .
qed

lemma partQuality_doc_NaN:
  assumes "i \<in> set part" "w < wc" "D ! i ! w = NaN"
  shows "partQuality D part wc = NaN"
proof -
  from assms(1) obtain j where j: "j < length part" "part ! j = i"
    by (auto simp: in_set_conv_nth)
  then have "rows D part ! j ! w = NaN" using assms(3) by (simp add: rows_def)
  then have "vec_sum (rows D part) wc (length part) ! w = NaN"
    using j(1) assms(2) by (intro vec_sum_NaN[of j])
  then have "computeConcept (rows D part) (length part) wc = replicate wc NaN"
    using assms(2) by (intro computeConcept_NaN[of w])
  moreover have "0 < wc" using assms(2) by simp
  ultimately show ?thesis
    by (simp add: partQuality_def computeQuality_partition_def vec_dot_replicate_NaN)
qed

lemma qualityOf_doc_NaN:
  assumes "mset (concat parts) = mset [0..<dc]" "i < dc" "w < wc" "D ! i ! w = NaN"
  shows "qualityOf D parts wc = NaN"
proof -
  have "set (concat parts) = set [0..<dc]" using assms(1) by (rule mset_eq_setD)
  with assms(2) have "i \<in> set (concat parts)" by simp
  then obtain p where p: "p \<in> set parts" "i \<in> set p" by auto
  have "partQuality D p wc = NaN" using p(2) assms(3,4) by (rule partQuality_doc_NaN)
  then have "NaN \<in> set (map (\<lambda>p. partQuality D p wc) parts)" using p(1) by force
  then show ?thesis unfolding qualityOf_def by (rule foldl_fadd_has_NaN)
qed

lemma qualityOf_wc0: "qualityOf D parts 0 = Fin 0"
proof -
  have "map (\<lambda>p. partQuality D p 0) parts = map (\<lambda>p. Fin 0) parts"
    by (simp add: partQuality_def computeQuality_partition_def vec_dot_def)
  then show ?thesis
    unfolding qualityOf_def by (simp only: foldl_fadd_Fin) simp
qed

lemma fadd_nonfin: "(\<forall>r. a \<noteq> Fin r) \<or> (\<forall>r. b \<noteq> Fin r) \<Longrightarrow> \<forall>r. fadd a b \<noteq> Fin r"
  by (cases a; cases b) auto

lemma foldl_fadd_nonfin:
  "(\<forall>r. a \<noteq> Fin r) \<or> (\<exists>t\<in>set ts. \<forall>r. t \<noteq> Fin r) \<Longrightarrow> \<forall>r. foldl fadd a ts \<noteq> Fin r"
proof (induction ts arbitrary: a)
  case Nil
  then show ?case by simp
next
  case (Cons t ts)
  show ?case
  proof (cases "(\<forall>r. a \<noteq> Fin r) \<or> (\<forall>r. t \<noteq> Fin r)")
    case True
    then have "\<forall>r. fadd a t \<noteq> Fin r" by (rule fadd_nonfin)
    then show ?thesis using Cons.IH[of "fadd a t"] by simp
  next
    case False
    with Cons.prems have "\<exists>t\<in>set ts. \<forall>r. t \<noteq> Fin r" by auto
    then show ?thesis using Cons.IH[of "fadd a t"] by simp
  qed
qed

lemma fadd_not_NInf: "a \<noteq> NInf \<Longrightarrow> b \<noteq> NInf \<Longrightarrow> fadd a b \<noteq> NInf"
  by (cases a; cases b) auto

lemma foldl_fadd_not_NInf:
  "a \<noteq> NInf \<Longrightarrow> \<forall>t\<in>set ts. t \<noteq> NInf \<Longrightarrow> foldl fadd a ts \<noteq> NInf"
  by (induction ts arbitrary: a) (simp_all add: fadd_not_NInf)

lemma fmul_self_not_NInf: "fmul x x \<noteq> NInf"
  by (cases x) auto

lemma fmul_self_nonfin: "\<forall>r. x \<noteq> Fin r \<Longrightarrow> \<forall>r. fmul x x \<noteq> Fin r"
  by (cases x) auto

lemma fdiv_nonfin: "\<forall>r. x \<noteq> Fin r \<Longrightarrow> n = PInf \<or> n = NaN \<Longrightarrow> fdiv x n = NaN"
  by (cases x) auto

lemma length_vec_normalize [simp]: "length (vec_normalize v n) = length v"
  by (simp add: vec_normalize_def vec_divide_def)

lemma vec_normalize_nonfin:
  assumes "i < n" "length v = n" "\<forall>r. v ! i \<noteq> Fin r"
  shows "vec_normalize v n ! i = NaN"
proof -
  let ?ts = "map (\<lambda>i. fmul (v ! i) (v ! i)) [0..<n]"
  have "fmul (v ! i) (v ! i) \<in> set ?ts"
    using assms(1) by (auto simp: image_iff simp del: fmul.simps intro!: bexI[of _ i])
  moreover have "\<forall>r. fmul (v ! i) (v ! i) \<noteq> Fin r" using assms(3) by (rule fmul_self_nonfin)
  ultimately have "\<exists>t\<in>set ?ts. \<forall>r. t \<noteq> Fin r" by blast
  then have nf: "\<forall>r. vec_dot v v n \<noteq> Fin r"
    unfolding vec_dot_def by (intro foldl_fadd_nonfin) simp
  have "vec_dot v v n \<noteq> NInf"
    unfolding vec_dot_def by (intro foldl_fadd_not_NInf) (auto simp: fmul_self_not_NInf simp del: fmul.simps)
  with nf have "vec_dot v v n = PInf \<or> vec_dot v v n = NaN"
    by (cases "vec_dot v v n") auto
  then have "vec_norm v n = PInf \<or> vec_norm v n = NaN"
    by (auto simp: vec_norm_def)
  then have "fdiv (v ! i) (vec_norm v n) = NaN" using assms(3) by (intro fdiv_nonfin)
  then show ?thesis
    using assms(1,2) by (simp add: vec_normalize_def vec_divide_def)
qed

lemma vec_normalize_cases:
  assumes "length v = n" "0 < n"
  shows "(\<exists>x. length x = n \<and> rdot x x = 1 \<and> vec_normalize v n = map Fin x) \<or>
         (\<exists>w<n. vec_normalize v n ! w = NaN)"
proof (cases "\<forall>i<n. \<exists>r. v ! i = Fin r")
  case True
  then have v: "v = map Fin (map re v)"
    using assms(1) by (auto intro!: nth_equalityI)
  let ?x = "map re v"
  have len: "length ?x = n" using assms(1) by simp
  show ?thesis
  proof (cases "rnorm ?x = 0")
    case z: True
    have "vec_normalize (map Fin ?x) n = replicate n NaN"
      using len z by (rule vec_normalize_zero)
    then have "vec_normalize v n ! 0 = NaN" using v assms(2) by simp
    with assms(2) show ?thesis by blast
  next
    case nz: False
    have "vec_normalize (map Fin ?x) n = map Fin (map (\<lambda>t. t / rnorm ?x) ?x)"
      using len nz by (rule vec_normalize_Fin)
    then have "vec_normalize v n = map Fin (map (\<lambda>t. t / rnorm ?x) ?x)" using v by simp
    moreover have "rdot (map (\<lambda>t. t / rnorm ?x) ?x) (map (\<lambda>t. t / rnorm ?x) ?x) = 1"
      by (rule rdot_normalized[OF nz])
    moreover have "length (map (\<lambda>t. t / rnorm ?x) ?x) = n" using len by simp
    ultimately show ?thesis by blast
  qed
next
  case False
  then obtain i where i: "i < n" "\<forall>r. v ! i \<noteq> Fin r" by auto
  then have "vec_normalize v n ! i = NaN" using assms(1) by (intro vec_normalize_nonfin)
  with i(1) show ?thesis by blast
qed

lemma txnScheme_map:
  assumes "length D = dc"
  shows "txnScheme D dc wc = map (\<lambda>v. vec_normalize v wc) D"
  using assms by (simp add: txnScheme_def)

lemma txnScheme_cases:
  assumes "valid_input D k dc wc" "0 < wc"
  shows "(\<exists>U. length U = dc \<and> (\<forall>u\<in>set U. length u = wc \<and> rdot u u = 1) \<and>
              txnScheme D dc wc = map (map Fin) U) \<or>
         (\<exists>i<dc. \<exists>w<wc. txnScheme D dc wc ! i ! w = NaN)"
proof -
  from assms(1) have len: "length D = dc" and rows: "\<forall>v\<in>set D. length v = wc"
    by (simp_all add: valid_input_def list_all_iff)
  note txn = txnScheme_map[OF len, of wc]
  show ?thesis
  proof (cases "\<exists>i<dc. \<exists>w<wc. txnScheme D dc wc ! i ! w = NaN")
    case True
    then show ?thesis by blast
  next
    case False
    have ex: "\<exists>x. length x = wc \<and> rdot x x = 1 \<and> vec_normalize (D ! i) wc = map Fin x" if "i < dc" for i
    proof -
      have l: "length (D ! i) = wc" using that len rows by simp
      from vec_normalize_cases[OF l assms(2)] False that show ?thesis
        by (auto simp: txn len)
    qed
    define U where "U = map (\<lambda>v. map re (vec_normalize v wc)) D"
    have "txnScheme D dc wc = map (map Fin) U"
      unfolding txn U_def
    proof (rule nth_equalityI)
      show "length (map (\<lambda>v. vec_normalize v wc) D) = length (map (map Fin) (map (\<lambda>v. map re (vec_normalize v wc)) D))"
        by simp
    next
      fix i assume "i < length (map (\<lambda>v. vec_normalize v wc) D)"
      then have i: "i < dc" using len by simp
      from ex[OF i] obtain x where "vec_normalize (D ! i) wc = map Fin x" by blast
      then show "map (\<lambda>v. vec_normalize v wc) D ! i = map (map Fin) (map (\<lambda>v. map re (vec_normalize v wc)) D) ! i"
        using i len by (simp add: o_def)
    qed
    moreover have "length U = dc" by (simp add: U_def len)
    moreover have "\<forall>u\<in>set U. length u = wc \<and> rdot u u = 1"
    proof
      fix u assume "u \<in> set U"
      then obtain i where i: "i < dc" "u = map re (vec_normalize (D ! i) wc)"
        unfolding U_def using len by (auto simp: in_set_conv_nth)
      from ex[OF i(1)] obtain x where x: "length x = wc" "rdot x x = 1" "vec_normalize (D ! i) wc = map Fin x"
        by blast
      have "u = x" unfolding i(2) x(3) by (simp add: o_def)
      with x show "length u = wc \<and> rdot u u = 1" by simp
    qed
    ultimately show ?thesis by blast
  qed
qed

lemma fsub_Fin [simp]: "fsub (Fin a) (Fin b) = Fin (a - b)"
  by (simp add: fsub_def)

lemma fsub_NaN [simp]: "fsub NaN b = NaN" "fsub a NaN = NaN"
  by (simp_all add: fsub_def)

lemma partition_indices:
  assumes "mset (concat parts) = mset [0..<dc]"
  shows "\<forall>p\<in>set parts. \<forall>r\<in>set p. r < dc" and "length (concat parts) = dc"
proof -
  have s: "set (concat parts) = set [0..<dc]" using assms by (rule mset_eq_setD)
  show "\<forall>p\<in>set parts. \<forall>r\<in>set p. r < dc"
  proof (intro ballI)
    fix p r assume "p \<in> set parts" "r \<in> set p"
    then have "r \<in> set (concat parts)" by auto
    with s show "r < dc" by simp
  qed
  have "length (concat parts) = size (mset (concat parts))" by simp
  also have "\<dots> = dc" unfolding assms by simp
  finally show "length (concat parts) = dc" .
qed

lemma quality_range:
  assumes "valid_input D k dc wc"
  shows "quality ((loopBody (txnScheme D dc wc) ^^ n) (beforeLoop (txnScheme D dc wc) k dc wc)) = NaN \<or>
     (\<exists>q. quality ((loopBody (txnScheme D dc wc) ^^ n) (beforeLoop (txnScheme D dc wc) k dc wc)) = Fin q \<and>
          0 \<le> q \<and> q \<le> real dc)"
proof -
  let ?D = "txnScheme D dc wc"
  let ?s = "(loopBody ?D ^^ n) (beforeLoop ?D k dc wc)"
  let ?P = "partitions (data ?s)"
  from assms have k: "0 < k" by (simp add: valid_input_def)
  have co: "coherent ?D k dc wc ?s" by (rule coherent_funpow[OF k])
  then have q: "quality ?s = qualityOf ?D ?P wc" and ms: "mset (concat ?P) = mset [0..<dc]"
    by (simp_all add: coherent_def)
  note pi = partition_indices[OF ms]
  show ?thesis
  proof (cases "wc = 0")
    case True
    then show ?thesis unfolding q by (simp add: qualityOf_wc0)
  next
    case False
    then have wc: "0 < wc" by simp
    from txnScheme_cases[OF assms wc] show ?thesis
    proof
      assume "\<exists>U. length U = dc \<and> (\<forall>u\<in>set U. length u = wc \<and> rdot u u = 1) \<and> ?D = map (map Fin) U"
      then obtain U where U: "length U = dc" "\<forall>u\<in>set U. length u = wc \<and> rdot u u = 1"
        "?D = map (map Fin) U" by blast
      have "\<forall>p\<in>set ?P. \<forall>r\<in>set p. r < length U" using pi(1) U(1) by simp
      from qualityOf_cases[OF this U(2) wc] show ?thesis
        unfolding q U(3)[symmetric] pi(2) .
    next
      assume "\<exists>i<dc. \<exists>w<wc. ?D ! i ! w = NaN"
      then obtain i w where "i < dc" "w < wc" "?D ! i ! w = NaN" by blast
      with ms have "qualityOf ?D ?P wc = NaN" by (rule qualityOf_doc_NaN)
      then show ?thesis unfolding q by simp
    qed
  qed
qed

lemma loop_progress:
  assumes "valid_input D k dc wc"
    and "\<forall>i. 1 \<le> i \<and> i \<le> Suc n \<longrightarrow>
          fgt (dQ ((loopBody (txnScheme D dc wc) ^^ i) (beforeLoop (txnScheme D dc wc) k dc wc))) Q_THRESHOLD"
  shows "\<exists>q. quality ((loopBody (txnScheme D dc wc) ^^ n) (beforeLoop (txnScheme D dc wc) k dc wc)) = Fin q \<and>
            real n / 1000 \<le> q"
  using assms(2)
proof (induction n)
  case 0
  let ?D = "txnScheme D dc wc"
  let ?s = "\<lambda>n. (loopBody ?D ^^ n) (beforeLoop ?D k dc wc)"
  from assms(1) have k: "0 < k" by (simp add: valid_input_def)
  from 0 have "fgt (dQ (?s (Suc 0))) Q_THRESHOLD" by (elim allE[of _ "Suc 0"]) simp
  then have g: "fgt (fsub (quality (?s (Suc 0))) (quality (?s 0))) Q_THRESHOLD"
    by (simp only: dQ_funpow_Suc[OF k])
  from quality_range[OF assms(1), of 0] show ?case
  proof
    assume "quality (?s 0) = NaN"
    with g show ?thesis by simp
  next
    assume "\<exists>q. quality (?s 0) = Fin q \<and> 0 \<le> q \<and> q \<le> real dc"
    then show ?thesis by auto
  qed
next
  case (Suc n)
  let ?D = "txnScheme D dc wc"
  let ?s = "\<lambda>n. (loopBody ?D ^^ n) (beforeLoop ?D k dc wc)"
  from assms(1) have k: "0 < k" by (simp add: valid_input_def)
  from Suc.prems have "\<forall>i. 1 \<le> i \<and> i \<le> Suc n \<longrightarrow> fgt (dQ (?s i)) Q_THRESHOLD" by simp
  from Suc.IH[OF this] obtain q where q: "quality (?s n) = Fin q" "real n / 1000 \<le> q" by blast
  from Suc.prems have "fgt (dQ (?s (Suc n))) Q_THRESHOLD" by (elim allE[of _ "Suc n"]) simp
  then have g: "fgt (fsub (quality (?s (Suc n))) (Fin q)) Q_THRESHOLD"
    by (simp only: dQ_funpow_Suc[OF k] q(1))
  from quality_range[OF assms(1), of "Suc n"] show ?case
  proof
    assume "quality (?s (Suc n)) = NaN"
    with g show ?thesis by simp
  next
    assume "\<exists>q. quality (?s (Suc n)) = Fin q \<and> 0 \<le> q \<and> q \<le> real dc"
    then obtain q' where q': "quality (?s (Suc n)) = Fin q'" by blast
    with g have "1 / 1000 < q' - q" by (simp add: Q_THRESHOLD_def)
    with q(2) have "real (Suc n) / 1000 \<le> q'" by (simp add: field_simps)
    with q' show ?thesis by blast
  qed
qed

lemma loop_stops_within:
  assumes "valid_input D k dc wc"
  shows "\<exists>n. 1 \<le> n \<and> n \<le> 1000 * dc + 1 \<and>
     \<not> fgt (dQ ((loopBody (txnScheme D dc wc) ^^ n) (beforeLoop (txnScheme D dc wc) k dc wc))) Q_THRESHOLD"
proof (rule ccontr)
  let ?D = "txnScheme D dc wc"
  let ?s = "\<lambda>n. (loopBody ?D ^^ n) (beforeLoop ?D k dc wc)"
  assume "\<not> (\<exists>n. 1 \<le> n \<and> n \<le> 1000 * dc + 1 \<and> \<not> fgt (dQ (?s n)) Q_THRESHOLD)"
  then have "\<forall>i. 1 \<le> i \<and> i \<le> Suc (1000 * dc) \<longrightarrow> fgt (dQ (?s i)) Q_THRESHOLD" by simp
  from loop_progress[OF assms this] obtain q where
    q: "quality (?s (1000 * dc)) = Fin q" "real (1000 * dc) / 1000 \<le> q" by blast
  from assms have k: "0 < k" by (simp add: valid_input_def)
  have "fgt (dQ (?s (Suc (1000 * dc)))) Q_THRESHOLD"
    using \<open>\<forall>i. 1 \<le> i \<and> i \<le> Suc (1000 * dc) \<longrightarrow> fgt (dQ (?s i)) Q_THRESHOLD\<close>
    by (elim allE[of _ "Suc (1000 * dc)"]) simp
  then have g: "fgt (fsub (quality (?s (Suc (1000 * dc)))) (Fin q)) Q_THRESHOLD"
    by (simp only: dQ_funpow_Suc[OF k] q(1))
  from quality_range[OF assms, of "Suc (1000 * dc)"] show False
  proof
    assume "quality (?s (Suc (1000 * dc))) = NaN"
    with g show False by simp
  next
    assume "\<exists>q. quality (?s (Suc (1000 * dc))) = Fin q \<and> 0 \<le> q \<and> q \<le> real dc"
    then obtain q' where q': "quality (?s (Suc (1000 * dc))) = Fin q'" "q' \<le> real dc" by blast
    with g have "1 / 1000 < q' - q" by (simp add: Q_THRESHOLD_def)
    with q(2) q'(2) show False by simp
  qed
qed

lemma runSPKMeans_terminates:
  assumes "valid_input D k dc wc"
  shows "\<exists>t. runSPKMeans_locals D k dc wc = Some t \<and> 1 \<le> iterations t \<and> iterations t \<le> 1000 * dc + 1 \<and>
     t = (loopBody (txnScheme D dc wc) ^^ iterations t) (beforeLoop (txnScheme D dc wc) k dc wc)"
proof -
  let ?D = "txnScheme D dc wc"
  let ?s = "\<lambda>n. (loopBody ?D ^^ n) (beforeLoop ?D k dc wc)"
  let ?P = "\<lambda>n. \<not> fgt (dQ (?s n)) Q_THRESHOLD"
  from loop_stops_within[OF assms] obtain n where n: "1 \<le> n" "n \<le> 1000 * dc + 1" "?P n" by blast
  define m where "m = (LEAST n. ?P n)"
  have Pm: "?P m" unfolding m_def using n(3) by (rule LeastI)
  have le: "m \<le> n" unfolding m_def using n(3) by (rule Least_le)
  have before: "\<forall>i<m. fgt (dQ (?s i)) Q_THRESHOLD"
    unfolding m_def using not_less_Least by blast
  have "m \<noteq> 0" using Pm dQ_beforeLoop[of ?D k dc wc] by (cases m) auto
  have run: "runSPKMeans_locals D k dc wc = spkLoop ?D (?s 0)"
    using assms by (simp add: runSPKMeans_locals_def Let_def)
  have "spkLoop ?D (beforeLoop ?D k dc wc) = Some (?s m)"
    using before Pm by (rule spkLoop_stops)
  then have "spkLoop ?D (?s 0) = Some (?s m)" by simp
  moreover have "iterations (?s m) = m"
    by (simp add: iterations_funpow iterations_beforeLoop)
  ultimately show ?thesis
    using run \<open>m \<noteq> 0\<close> le n(2) by (intro exI[of _ "?s m"]) simp
qed

lemma length_rconcept [simp]: "length (rconcept U part wc) = wc"
  by (simp add: rconcept_def)

lemma rnorm_rconcept: "rnorm (rsum U part wc) \<noteq> 0 \<Longrightarrow> rnorm (rconcept U part wc) = 1"
  unfolding rconcept_def by (rule rnorm_normalized)

lemma rnorm_unit: "rdot u u = 1 \<Longrightarrow> rnorm u = 1"
  by (simp add: rnorm_def)





lemma concepts_unit_state:
  assumes U: "\<forall>u\<in>set U. length u = wc \<and> rdot u u = 1" "length U = dc"
    and co: "coherent (map (map Fin) U) k dc wc s"
    and nz: "\<forall>p\<in>set (partitions (data s)). rnorm (rsum U p wc) \<noteq> 0"
  shows "concepts (data s) = map (\<lambda>p. map Fin (rconcept U p wc)) (partitions (data s))"
proof -
  let ?P = "partitions (data s)"
  from co have cs: "concepts (data s) = map (\<lambda>p. computeConcept (rows (map (map Fin) U) p) (length p) wc) ?P"
    and ms: "mset (concat ?P) = mset [0..<dc]" by (simp_all add: coherent_def)
  note pi = partition_indices[OF ms]
  show ?thesis
    unfolding cs rconcept_def
    using pi(1) U nz by (intro map_cong refl partQuality_Fin(1)) auto
qed

lemma cosine_unit_rows:
  assumes "length u = wc" "rdot u u = 1" "length c = wc" "rnorm c = 1"
  shows "cosineSimilarity (map Fin u) (map Fin c) wc = Fin (rdot u c)"
proof -
  have "vec_norm (map Fin u) wc = Fin 1"
    using assms(1,2) by (simp add: vec_norm_rnorm rnorm_unit)
  moreover have "vec_norm (map Fin c) wc = Fin 1"
    using assms(3,4) by (simp add: vec_norm_rnorm)
  ultimately have "cosineSimilarity (map Fin u) (map Fin c) wc = vec_dot (map Fin u) (map Fin c) wc"
    by (rule cosine_unit)
  also have "\<dots> = Fin (rdot u c)" using assms(1,3) by (rule vec_dot_rdot)
  finally show ?thesis .
qed





lemma funpow_data_lengths:
  assumes "0 < k"
  shows "length (concepts (data ((loopBody D ^^ n) (beforeLoop D k dc wc)))) = k"
    and "length (p_sizes (data ((loopBody D ^^ n) (beforeLoop D k dc wc)))) = k"
    and "length (partitions (data ((loopBody D ^^ n) (beforeLoop D k dc wc)))) = k"
  using coherent_funpow[OF assms, of D dc wc n] by (simp_all add: coherent_def)

section \<open>Two-cluster runs on unit documents\<close>

lemma txnScheme_unit:
  assumes "length X = dc" "\<forall>x\<in>set X. length x = wc \<and> rdot x x = 1"
  shows "txnScheme (map (map Fin) X) dc wc = map (map Fin) X"
proof -
  have "vec_normalize (map Fin x) wc = map Fin x" if "x \<in> set X" for x
  proof -
    from that assms(2) have l: "length x = wc" and n: "rnorm x = 1" by (simp_all add: rnorm_unit)
    have "vec_normalize (map Fin x) wc = map Fin (map (\<lambda>t. t / rnorm x) x)"
      using l n by (intro vec_normalize_Fin) simp_all
    then show ?thesis by (simp add: n)
  qed
  then show ?thesis
    using assms(1) by (simp add: txnScheme_map o_def cong: map_cong)
qed

lemma closestConcept_2:
  "closestConcept dv cs 2 wc =
     (if fgt (cosineSimilarity dv (cs ! 1) wc) (cosineSimilarity dv (cs ! 0) wc) then 1 else 0)"
  by (simp add: closestConcept_def closestLoop.simps Let_def)

lemma cos_state:
  assumes U: "\<forall>u\<in>set U. length u = wc \<and> rdot u u = 1" "length U = dc"
    and co: "coherent (map (map Fin) U) k dc wc s"
    and nz: "\<forall>p\<in>set (partitions (data s)). rnorm (rsum U p wc) \<noteq> 0"
    and i: "i < dc" and j: "j < k"
  shows "cosineSimilarity (map (map Fin) U ! i) (concepts (data s) ! j) wc =
     Fin (rdot (U ! i) (rsum U (partitions (data s) ! j) wc) / rnorm (rsum U (partitions (data s) ! j) wc))"
proof -
  let ?P = "partitions (data s)"
  from co have len: "length ?P = k" by (simp add: coherent_def)
  have ui: "length (U ! i) = wc" "rdot (U ! i) (U ! i) = 1" using i U by auto
  have Di: "map (map Fin) U ! i = map Fin (U ! i)" using i U(2) by simp
  have mem: "?P ! j \<in> set ?P" using j len by simp
  then have n0: "rnorm (rsum U (?P ! j) wc) \<noteq> 0" using nz by blast
  have "concepts (data s) ! j = map Fin (rconcept U (?P ! j) wc)"
    unfolding concepts_unit_state[OF U co nz] using j len by simp
  then have "cosineSimilarity (map (map Fin) U ! i) (concepts (data s) ! j) wc =
      Fin (rdot (U ! i) (rconcept U (?P ! j) wc))"
    unfolding Di using ui rnorm_rconcept[OF n0] by (simp add: cosine_unit_rows)
  also have "rdot (U ! i) (rconcept U (?P ! j) wc) =
      rdot (U ! i) (rsum U (?P ! j) wc) / rnorm (rsum U (?P ! j) wc)"
    unfolding rconcept_def using ui(1) by (intro rdot_div_right) simp
  finally show ?thesis .
qed

lemma loopBody_two:
  assumes U: "\<forall>u\<in>set U. length u = wc \<and> rdot u u = 1" "length U = dc"
    and co: "coherent (map (map Fin) U) 2 dc wc s"
    and P: "partitions (data s) = [p0, p1]"
    and nz: "rnorm (rsum U p0 wc) \<noteq> 0" "rnorm (rsum U p1 wc) \<noteq> 0"
  shows "partitions (data (loopBody (map (map Fin) U) s)) =
     [filter (\<lambda>i. \<not> rdot (U ! i) (rsum U p0 wc) / rnorm (rsum U p0 wc)
                     < rdot (U ! i) (rsum U p1 wc) / rnorm (rsum U p1 wc)) [0..<dc],
      filter (\<lambda>i. rdot (U ! i) (rsum U p0 wc) / rnorm (rsum U p0 wc)
                     < rdot (U ! i) (rsum U p1 wc) / rnorm (rsum U p1 wc)) [0..<dc]]"
    and "quality s = Fin (rnorm (rsum U p0 wc) + rnorm (rsum U p1 wc))"
    and "coherent (map (map Fin) U) 2 dc wc (loopBody (map (map Fin) U) s)"
    and "dQ (loopBody (map (map Fin) U) s) = fsub (quality (loopBody (map (map Fin) U) s)) (quality s)"
    and "iterations (loopBody (map (map Fin) U) s) = iterations s + 1"
proof -
  let ?D = "map (map Fin) U"
  have k: "(0::nat) < 2" by simp
  have nzP: "\<forall>p\<in>set (partitions (data s)). rnorm (rsum U p wc) \<noteq> 0"
    using nz by (simp add: P)
  note co' = coherent_loopBody[OF k co]
  show "coherent ?D 2 dc wc (loopBody ?D s)" by (rule co'(1))
  show "dQ (loopBody ?D s) = fsub (quality (loopBody ?D s)) (quality s)" by (rule co'(2))
  show "iterations (loopBody ?D s) = iterations s + 1" by (simp add: loopBody_def Let_def)
  from co have q: "quality s = qualityOf ?D (partitions (data s)) wc"
    and ms: "mset (concat (partitions (data s))) = mset [0..<dc]" by (simp_all add: coherent_def)
  have "\<forall>p\<in>set (partitions (data s)). \<forall>r\<in>set p. r < length U"
    using partition_indices(1)[OF ms] U(2) by simp
  moreover have "\<forall>u\<in>set U. length u = wc" using U(1) by simp
  ultimately have "qualityOf ?D (partitions (data s)) wc = Fin (\<Sum>p\<leftarrow>partitions (data s). rnorm (rsum U p wc))"
    using nzP by (rule qualityOf_Fin)
  then show "quality s = Fin (rnorm (rsum U p0 wc) + rnorm (rsum U p1 wc))"
    by (simp add: q P)
  have cl: "closestConcept (?D ! i) (concepts (data s)) 2 wc =
      (if rdot (U ! i) (rsum U p0 wc) / rnorm (rsum U p0 wc)
            < rdot (U ! i) (rsum U p1 wc) / rnorm (rsum U p1 wc) then 1 else 0)" if "i < dc" for i
  proof -
    have c0: "cosineSimilarity (?D ! i) (concepts (data s) ! 0) wc =
        Fin (rdot (U ! i) (rsum U p0 wc) / rnorm (rsum U p0 wc))"
      using cos_state[OF U co nzP that, of 0] by (simp add: P)
    have c1: "cosineSimilarity (?D ! i) (concepts (data s) ! 1) wc =
        Fin (rdot (U ! i) (rsum U p1 wc) / rnorm (rsum U p1 wc))"
      using cos_state[OF U co nzP that, of 1] by (simp add: P)
    show ?thesis unfolding closestConcept_2 c0 c1 by simp
  qed
  have f: "filter (\<lambda>i. closestConcept (?D ! i) (concepts (data s)) 2 wc = j) [0..<dc] =
      filter (\<lambda>i. (if rdot (U ! i) (rsum U p0 wc) / rnorm (rsum U p0 wc)
            < rdot (U ! i) (rsum U p1 wc) / rnorm (rsum U p1 wc) then 1 else 0) = j) [0..<dc]" for j :: nat
    by (rule filter_cong) (simp_all add: cl)
  show "partitions (data (loopBody ?D s)) =
     [filter (\<lambda>i. \<not> rdot (U ! i) (rsum U p0 wc) / rnorm (rsum U p0 wc)
                     < rdot (U ! i) (rsum U p1 wc) / rnorm (rsum U p1 wc)) [0..<dc],
      filter (\<lambda>i. rdot (U ! i) (rsum U p0 wc) / rnorm (rsum U p0 wc)
                     < rdot (U ! i) (rsum U p1 wc) / rnorm (rsum U p1 wc)) [0..<dc]]"
    unfolding co'(3) upt_2 f by (simp cong: filter_cong)
qed

lemma mult_less_cancel_iff_aux:
  fixes x y :: real
  assumes "0 \<le> x" "0 \<le> y"
  shows "x < y \<longleftrightarrow> x * x < y * y"
proof
  assume "x < y"
  then show "x * x < y * y" using assms by (intro mult_strict_mono') simp_all
next
  assume h: "x * x < y * y"
  show "x < y"
  proof (rule ccontr)
    assume "\<not> x < y"
    then have "y \<le> x" by simp
    then have "y * y \<le> x * x" using assms by (intro mult_mono) simp_all
    with h show False by simp
  qed
qed

lemma div_sqrt_less_iff:
  assumes "0 \<le> a" "0 \<le> b" "0 < m" "0 < n"
  shows "(a / sqrt m < b / sqrt n) \<longleftrightarrow> (a * a * n < b * b * m)"
proof -
  have sm: "0 < sqrt m" and sn: "0 < sqrt n" using assms by simp_all
  have l: "0 \<le> a * sqrt n" and r: "0 \<le> b * sqrt m" using assms sm sn by simp_all
  have sq1: "(a * sqrt n) * (a * sqrt n) = a * a * n"
  proof -
    have "sqrt n * sqrt n = n" using assms(4) by simp
    then have "a * a * (sqrt n * sqrt n) = a * a * n" by simp
    then show ?thesis by (simp only: mult_ac)
  qed
  have sq2: "(b * sqrt m) * (b * sqrt m) = b * b * m"
  proof -
    have "sqrt m * sqrt m = m" using assms(3) by simp
    then have "b * b * (sqrt m * sqrt m) = b * b * m" by simp
    then show ?thesis by (simp only: mult_ac)
  qed
  have "(a / sqrt m < b / sqrt n) \<longleftrightarrow> (a * sqrt n < b * sqrt m)"
    using sm sn by (simp add: pos_divide_less_eq pos_less_divide_eq mult.commute)
  also have "\<dots> \<longleftrightarrow> ((a * sqrt n) * (a * sqrt n) < (b * sqrt m) * (b * sqrt m))"
    using l r by (rule mult_less_cancel_iff_aux)
  finally show ?thesis by (simp only: sq1 sq2)
qed

lemma rdot_2: "rdot [a, b] [c, d] = a * c + b * d"
  by (simp add: rdot_def numeral_2_eq_2)

lemma rnorm_2: "rnorm [a, b] = sqrt (a * a + b * b)"
  by (simp add: rnorm_def rdot_2)

lemma rsum_2: "rsum U p 2 = [\<Sum>r\<leftarrow>p. U ! r ! 0, \<Sum>r\<leftarrow>p. U ! r ! 1]"
  by (simp add: rsum_def upt_2)

lemma cmp_rule:
  assumes "rsum U p0 2 = [a0, b0]" "rsum U p1 2 = [a1, b1]" "U ! i = [x, y]"
    and "0 \<le> x * a0 + y * b0" "0 \<le> x * a1 + y * b1"
    and "0 < a0 * a0 + b0 * b0" "0 < a1 * a1 + b1 * b1"
  shows "(rdot (U ! i) (rsum U p0 2) / rnorm (rsum U p0 2) < rdot (U ! i) (rsum U p1 2) / rnorm (rsum U p1 2))
     \<longleftrightarrow> ((x * a0 + y * b0) * (x * a0 + y * b0) * (a1 * a1 + b1 * b1)
            < (x * a1 + y * b1) * (x * a1 + y * b1) * (a0 * a0 + b0 * b0))"
  unfolding assms(1,2,3) rdot_2 rnorm_2
  using assms(4,5,6,7) by (rule div_sqrt_less_iff)

lemma sqrt_le: "0 \<le> h \<Longrightarrow> x \<le> h * h \<Longrightarrow> sqrt x \<le> h"
  by (rule real_le_lsqrt) (simp_all add: power2_eq_square)

lemma sqrt_ge: "l * l \<le> x \<Longrightarrow> l \<le> sqrt x"
  by (rule real_le_rsqrt) (simp add: power2_eq_square)

lemma upt_5: "[0..<5] = [0, 1, 2, 3, 4]"
  by (simp add: upt_rec)

lemma C8_unit: "\<forall>u\<in>set docs_C8. length u = 2 \<and> rdot u u = 1"
  by (simp add: docs_C8_def rdot_2)

lemma C8_len: "length docs_C8 = 5"
  by (simp add: docs_C8_def)

lemma C8_nth:
  "docs_C8 ! 0 = [1, 0]" "docs_C8 ! 1 = [1, 0]" "docs_C8 ! Suc 0 = [1, 0]" "docs_C8 ! 2 = [3599 / 3601, 120 / 3601]"
  "docs_C8 ! 3 = [2499 / 2501, 100 / 2501]" "docs_C8 ! 4 = [112 / 113, 15 / 113]"
  by (simp_all add: docs_C8_def)

lemma C8_sums:
  "rsum docs_C8 [0, 1] 2 = [2, 0]"
  "rsum docs_C8 [2, 3, 4] 2 = [3042683086 / 1017689413, 209696375 / 1017689413]"
  "rsum docs_C8 [0, 1, 2] 2 = [10801 / 3601, 120 / 3601]"
  "rsum docs_C8 [3, 4] 2 = [562499 / 282613, 48815 / 282613]"
  "rsum docs_C8 [0, 1, 2, 3] 2 = [36012200 / 9006101, 660220 / 9006101]"
  "rsum docs_C8 [4] 2 = [112 / 113, 15 / 113]"
  by (simp_all add: rsum_2 C8_nth)

lemma C8_norms:
  "rnorm (rsum docs_C8 [0, 1] 2) = 2"
  "rnorm (rsum docs_C8 [2, 3, 4] 2) = sqrt (9140208017 / 1017689413)"
  "rnorm (rsum docs_C8 [0, 1, 2] 2) = sqrt (32401 / 3601)"
  "rnorm (rsum docs_C8 [3, 4] 2) = sqrt (1128002 / 282613)"
  "rnorm (rsum docs_C8 [0, 1, 2, 3] 2) = sqrt (144048400 / 9006101)"
  "rnorm (rsum docs_C8 [4] 2) = 1"
  unfolding C8_sums rnorm_2 by simp_all

lemma firstPartitioning_2_5: "firstPartitioning 2 5 = [([0, 1], 2), ([2, 3, 4], 3)]"
proof -
  have u: "[0..<2] = [0, Suc 0]" "[2..<5] = [2, 3, 4]" by (simp_all add: upt_rec)
  have h: "(0::nat) < 2" by simp
  show ?thesis unfolding firstPartitioning_blocks[OF h] by (simp add: u)
qed

lemma beforeLoop_partitions_2_5: "partitions (data (beforeLoop D 2 5 wc)) = [[0, 1], [2, 3, 4]]"
  by (simp add: beforeLoop_def Let_def firstPartitioning_2_5)

lemma C8_valid: "valid_input (map (map Fin) docs_C8) 2 5 2"
  by (simp add: valid_input_def docs_C8_def)

lemma C8_txn: "txnScheme (map (map Fin) docs_C8) 5 2 = map (map Fin) docs_C8"
  using C8_len C8_unit by (rule txnScheme_unit)

lemma C8_cmp0:
  "(rdot (docs_C8 ! 0) (rsum docs_C8 [0, 1] 2) / rnorm (rsum docs_C8 [0, 1] 2)
      < rdot (docs_C8 ! 0) (rsum docs_C8 [2, 3, 4] 2) / rnorm (rsum docs_C8 [2, 3, 4] 2)) = False"
  "(rdot (docs_C8 ! 1) (rsum docs_C8 [0, 1] 2) / rnorm (rsum docs_C8 [0, 1] 2)
      < rdot (docs_C8 ! 1) (rsum docs_C8 [2, 3, 4] 2) / rnorm (rsum docs_C8 [2, 3, 4] 2)) = False"
  "(rdot (docs_C8 ! 2) (rsum docs_C8 [0, 1] 2) / rnorm (rsum docs_C8 [0, 1] 2)
      < rdot (docs_C8 ! 2) (rsum docs_C8 [2, 3, 4] 2) / rnorm (rsum docs_C8 [2, 3, 4] 2)) = False"
  "(rdot (docs_C8 ! 3) (rsum docs_C8 [0, 1] 2) / rnorm (rsum docs_C8 [0, 1] 2)
      < rdot (docs_C8 ! 3) (rsum docs_C8 [2, 3, 4] 2) / rnorm (rsum docs_C8 [2, 3, 4] 2)) = True"
  "(rdot (docs_C8 ! 4) (rsum docs_C8 [0, 1] 2) / rnorm (rsum docs_C8 [0, 1] 2)
      < rdot (docs_C8 ! 4) (rsum docs_C8 [2, 3, 4] 2) / rnorm (rsum docs_C8 [2, 3, 4] 2)) = True"
proof -
  show "(rdot (docs_C8 ! 0) (rsum docs_C8 [0, 1] 2) / rnorm (rsum docs_C8 [0, 1] 2)
      < rdot (docs_C8 ! 0) (rsum docs_C8 [2, 3, 4] 2) / rnorm (rsum docs_C8 [2, 3, 4] 2)) = False"
    by (subst cmp_rule[OF C8_sums(1) C8_sums(2) C8_nth(1)]) simp_all
  show "(rdot (docs_C8 ! 1) (rsum docs_C8 [0, 1] 2) / rnorm (rsum docs_C8 [0, 1] 2)
      < rdot (docs_C8 ! 1) (rsum docs_C8 [2, 3, 4] 2) / rnorm (rsum docs_C8 [2, 3, 4] 2)) = False"
    by (subst cmp_rule[OF C8_sums(1) C8_sums(2) C8_nth(2)]) simp_all
  show "(rdot (docs_C8 ! 2) (rsum docs_C8 [0, 1] 2) / rnorm (rsum docs_C8 [0, 1] 2)
      < rdot (docs_C8 ! 2) (rsum docs_C8 [2, 3, 4] 2) / rnorm (rsum docs_C8 [2, 3, 4] 2)) = False"
    by (subst cmp_rule[OF C8_sums(1) C8_sums(2) C8_nth(4)]) simp_all
  show "(rdot (docs_C8 ! 3) (rsum docs_C8 [0, 1] 2) / rnorm (rsum docs_C8 [0, 1] 2)
      < rdot (docs_C8 ! 3) (rsum docs_C8 [2, 3, 4] 2) / rnorm (rsum docs_C8 [2, 3, 4] 2)) = True"
    by (subst cmp_rule[OF C8_sums(1) C8_sums(2) C8_nth(5)]) simp_all
  show "(rdot (docs_C8 ! 4) (rsum docs_C8 [0, 1] 2) / rnorm (rsum docs_C8 [0, 1] 2)
      < rdot (docs_C8 ! 4) (rsum docs_C8 [2, 3, 4] 2) / rnorm (rsum docs_C8 [2, 3, 4] 2)) = True"
    by (subst cmp_rule[OF C8_sums(1) C8_sums(2) C8_nth(6)]) simp_all
qed

lemma C8_cmp1:
  "(rdot (docs_C8 ! 0) (rsum docs_C8 [0, 1, 2] 2) / rnorm (rsum docs_C8 [0, 1, 2] 2)
      < rdot (docs_C8 ! 0) (rsum docs_C8 [3, 4] 2) / rnorm (rsum docs_C8 [3, 4] 2)) = False"
  "(rdot (docs_C8 ! 1) (rsum docs_C8 [0, 1, 2] 2) / rnorm (rsum docs_C8 [0, 1, 2] 2)
      < rdot (docs_C8 ! 1) (rsum docs_C8 [3, 4] 2) / rnorm (rsum docs_C8 [3, 4] 2)) = False"
  "(rdot (docs_C8 ! 2) (rsum docs_C8 [0, 1, 2] 2) / rnorm (rsum docs_C8 [0, 1, 2] 2)
      < rdot (docs_C8 ! 2) (rsum docs_C8 [3, 4] 2) / rnorm (rsum docs_C8 [3, 4] 2)) = False"
  "(rdot (docs_C8 ! 3) (rsum docs_C8 [0, 1, 2] 2) / rnorm (rsum docs_C8 [0, 1, 2] 2)
      < rdot (docs_C8 ! 3) (rsum docs_C8 [3, 4] 2) / rnorm (rsum docs_C8 [3, 4] 2)) = False"
  "(rdot (docs_C8 ! 4) (rsum docs_C8 [0, 1, 2] 2) / rnorm (rsum docs_C8 [0, 1, 2] 2)
      < rdot (docs_C8 ! 4) (rsum docs_C8 [3, 4] 2) / rnorm (rsum docs_C8 [3, 4] 2)) = True"
proof -
  show "(rdot (docs_C8 ! 0) (rsum docs_C8 [0, 1, 2] 2) / rnorm (rsum docs_C8 [0, 1, 2] 2)
      < rdot (docs_C8 ! 0) (rsum docs_C8 [3, 4] 2) / rnorm (rsum docs_C8 [3, 4] 2)) = False"
    by (subst cmp_rule[OF C8_sums(3) C8_sums(4) C8_nth(1)]) simp_all
  show "(rdot (docs_C8 ! 1) (rsum docs_C8 [0, 1, 2] 2) / rnorm (rsum docs_C8 [0, 1, 2] 2)
      < rdot (docs_C8 ! 1) (rsum docs_C8 [3, 4] 2) / rnorm (rsum docs_C8 [3, 4] 2)) = False"
    by (subst cmp_rule[OF C8_sums(3) C8_sums(4) C8_nth(2)]) simp_all
  show "(rdot (docs_C8 ! 2) (rsum docs_C8 [0, 1, 2] 2) / rnorm (rsum docs_C8 [0, 1, 2] 2)
      < rdot (docs_C8 ! 2) (rsum docs_C8 [3, 4] 2) / rnorm (rsum docs_C8 [3, 4] 2)) = False"
    by (subst cmp_rule[OF C8_sums(3) C8_sums(4) C8_nth(4)]) simp_all
  show "(rdot (docs_C8 ! 3) (rsum docs_C8 [0, 1, 2] 2) / rnorm (rsum docs_C8 [0, 1, 2] 2)
      < rdot (docs_C8 ! 3) (rsum docs_C8 [3, 4] 2) / rnorm (rsum docs_C8 [3, 4] 2)) = False"
    by (subst cmp_rule[OF C8_sums(3) C8_sums(4) C8_nth(5)]) simp_all
  show "(rdot (docs_C8 ! 4) (rsum docs_C8 [0, 1, 2] 2) / rnorm (rsum docs_C8 [0, 1, 2] 2)
      < rdot (docs_C8 ! 4) (rsum docs_C8 [3, 4] 2) / rnorm (rsum docs_C8 [3, 4] 2)) = True"
    by (subst cmp_rule[OF C8_sums(3) C8_sums(4) C8_nth(6)]) simp_all
qed

lemma C8_nonzero:
  "rnorm (rsum docs_C8 [0, 1] 2) \<noteq> 0"
  "rnorm (rsum docs_C8 [2, 3, 4] 2) \<noteq> 0"
  "rnorm (rsum docs_C8 [0, 1, 2] 2) \<noteq> 0"
  "rnorm (rsum docs_C8 [3, 4] 2) \<noteq> 0"
  "rnorm (rsum docs_C8 [0, 1, 2, 3] 2) \<noteq> 0"
  "rnorm (rsum docs_C8 [4] 2) \<noteq> 0"
  unfolding C8_norms by simp_all

lemma C8_sqrt_bounds:
  "sqrt (32401 / 3601) \<le> 2999630 / 1000000"
  "sqrt (1128002 / 282613) \<le> 1997832 / 1000000"
  "2996887 / 1000000 \<le> sqrt (9140208017 / 1017689413)"
  "3999316 / 1000000 \<le> sqrt (144048400 / 9006101)"
  by (rule sqrt_le, simp, simp)
     (rule sqrt_le, simp, simp, rule sqrt_ge, simp, rule sqrt_ge, simp)

lemma C8_step1:
  "partitions (data (loopBody (map (map Fin) docs_C8) (beforeLoop (map (map Fin) docs_C8) 2 5 2)))
     = [[0, 1, 2], [3, 4]]"
  "coherent (map (map Fin) docs_C8) 2 5 2
     (loopBody (map (map Fin) docs_C8) (beforeLoop (map (map Fin) docs_C8) 2 5 2))"
  "quality (beforeLoop (map (map Fin) docs_C8) 2 5 2) = Fin (2 + sqrt (9140208017 / 1017689413))"
  "dQ (loopBody (map (map Fin) docs_C8) (beforeLoop (map (map Fin) docs_C8) 2 5 2)) =
     fsub (quality (loopBody (map (map Fin) docs_C8) (beforeLoop (map (map Fin) docs_C8) 2 5 2)))
          (Fin (2 + sqrt (9140208017 / 1017689413)))"
proof -
  let ?D = "map (map Fin) docs_C8"
  have co: "coherent ?D 2 5 2 (beforeLoop ?D 2 5 2)" by (rule coherent_beforeLoop) simp
  note st = loopBody_two[OF C8_unit C8_len co beforeLoop_partitions_2_5 C8_nonzero(1,2)]
  show "partitions (data (loopBody ?D (beforeLoop ?D 2 5 2))) = [[0, 1, 2], [3, 4]]"
    unfolding st(1)
    by (simp only: upt_5 filter.simps C8_cmp0 not_False_eq_True not_True_eq_False if_True if_False)
  show "coherent ?D 2 5 2 (loopBody ?D (beforeLoop ?D 2 5 2))" by (rule st(3))
  show q: "quality (beforeLoop ?D 2 5 2) = Fin (2 + sqrt (9140208017 / 1017689413))"
    unfolding st(2) C8_norms ..
  show "dQ (loopBody ?D (beforeLoop ?D 2 5 2)) =
     fsub (quality (loopBody ?D (beforeLoop ?D 2 5 2))) (Fin (2 + sqrt (9140208017 / 1017689413)))"
    unfolding st(4) q ..
qed

lemma C8_step2:
  "partitions (data (loopBody (map (map Fin) docs_C8)
     (loopBody (map (map Fin) docs_C8) (beforeLoop (map (map Fin) docs_C8) 2 5 2))))
     = [[0, 1, 2, 3], [4]]"
  "coherent (map (map Fin) docs_C8) 2 5 2 (loopBody (map (map Fin) docs_C8)
     (loopBody (map (map Fin) docs_C8) (beforeLoop (map (map Fin) docs_C8) 2 5 2)))"
  "quality (loopBody (map (map Fin) docs_C8) (beforeLoop (map (map Fin) docs_C8) 2 5 2)) =
     Fin (sqrt (32401 / 3601) + sqrt (1128002 / 282613))"
  "dQ (loopBody (map (map Fin) docs_C8)
     (loopBody (map (map Fin) docs_C8) (beforeLoop (map (map Fin) docs_C8) 2 5 2))) =
     fsub (quality (loopBody (map (map Fin) docs_C8)
            (loopBody (map (map Fin) docs_C8) (beforeLoop (map (map Fin) docs_C8) 2 5 2))))
          (Fin (sqrt (32401 / 3601) + sqrt (1128002 / 282613)))"
proof -
  let ?D = "map (map Fin) docs_C8"
  let ?s1 = "loopBody ?D (beforeLoop ?D 2 5 2)"
  note st = loopBody_two[OF C8_unit C8_len C8_step1(2) C8_step1(1) C8_nonzero(3,4)]
  show "partitions (data (loopBody ?D ?s1)) = [[0, 1, 2, 3], [4]]"
    unfolding st(1)
    by (simp only: upt_5 filter.simps C8_cmp1 not_False_eq_True not_True_eq_False if_True if_False)
  show "coherent ?D 2 5 2 (loopBody ?D ?s1)" by (rule st(3))
  show q: "quality ?s1 = Fin (sqrt (32401 / 3601) + sqrt (1128002 / 282613))"
    unfolding st(2) C8_norms ..
  show "dQ (loopBody ?D ?s1) =
     fsub (quality (loopBody ?D ?s1)) (Fin (sqrt (32401 / 3601) + sqrt (1128002 / 282613)))"
    unfolding st(4) q ..
qed

lemma C8_quality2:
  "quality (loopBody (map (map Fin) docs_C8)
     (loopBody (map (map Fin) docs_C8) (beforeLoop (map (map Fin) docs_C8) 2 5 2))) =
     Fin (sqrt (144048400 / 9006101) + 1)"
  using loopBody_two(2)[OF C8_unit C8_len C8_step2(2) C8_step2(1) C8_nonzero(5,6)]
  unfolding C8_norms .

lemma C8_dQ1:
  "dQ (loopBody (map (map Fin) docs_C8) (beforeLoop (map (map Fin) docs_C8) 2 5 2)) =
     Fin (sqrt (32401 / 3601) + sqrt (1128002 / 282613) - (2 + sqrt (9140208017 / 1017689413)))"
  unfolding C8_step1(4) C8_step2(3) fsub_Fin ..

lemma C8_dQ2:
  "dQ (loopBody (map (map Fin) docs_C8)
     (loopBody (map (map Fin) docs_C8) (beforeLoop (map (map Fin) docs_C8) 2 5 2))) =
     Fin (sqrt (144048400 / 9006101) + 1 - (sqrt (32401 / 3601) + sqrt (1128002 / 282613)))"
  unfolding C8_step2(4) C8_quality2 fsub_Fin ..

lemma C8_dQ1_small:
  "fle (dQ (loopBody (map (map Fin) docs_C8) (beforeLoop (map (map Fin) docs_C8) 2 5 2))) Q_THRESHOLD"
  unfolding C8_dQ1 Q_THRESHOLD_def using C8_sqrt_bounds by (simp add: fle_def)

lemma C8_dQ2_large:
  "fgt (dQ (loopBody (map (map Fin) docs_C8)
     (loopBody (map (map Fin) docs_C8) (beforeLoop (map (map Fin) docs_C8) 2 5 2)))) Q_THRESHOLD"
  unfolding C8_dQ2 Q_THRESHOLD_def using C8_sqrt_bounds by simp

lemma C8_run:
  "runSPKMeans_locals (map (map Fin) docs_C8) 2 5 2 =
     Some (loopBody (map (map Fin) docs_C8) (beforeLoop (map (map Fin) docs_C8) 2 5 2))"
proof -
  let ?D = "map (map Fin) docs_C8"
  have a: "\<forall>i<1. fgt (dQ ((loopBody ?D ^^ i) (beforeLoop ?D 2 5 2))) Q_THRESHOLD"
    by (simp add: dQ_beforeLoop)
  have b: "\<not> fgt (dQ ((loopBody ?D ^^ 1) (beforeLoop ?D 2 5 2))) Q_THRESHOLD"
    using fle_not_fgt[OF C8_dQ1_small] by simp
  have "spkLoop ?D (beforeLoop ?D 2 5 2) = Some ((loopBody ?D ^^ 1) (beforeLoop ?D 2 5 2))"
    using a b by (rule spkLoop_stops)
  then show ?thesis
    using C8_valid by (simp add: runSPKMeans_locals_def C8_txn Let_def)
qed

lemma data_coherent:
  assumes U: "\<forall>u\<in>set U. length u = wc \<and> rdot u u = 1" "length U = dc"
    and co: "coherent (map (map Fin) U) k dc wc s"
    and nz: "\<forall>p\<in>set (partitions (data s)). rnorm (rsum U p wc) \<noteq> 0"
  shows "data s = \<lparr> cd_k = k, cd_dc = dc, cd_wc = wc, partitions = partitions (data s),
       p_sizes = map (\<lambda>p. int (length p)) (partitions (data s)),
       concepts = map (\<lambda>p. map Fin (rconcept U p wc)) (partitions (data s)) \<rparr>"
  using co concepts_unit_state[OF U co nz] by (simp add: coherent_def)

lemma upt_4: "[0..<4] = [0, 1, 2, 3]"
  by (simp add: upt_rec)

lemma firstPartitioning_2_4: "firstPartitioning 2 4 = [([0, 1], 2), ([2, 3], 2)]"
proof -
  have u: "[0..<2] = [0, Suc 0]" "[2..<4] = [2, 3]" by (simp_all add: upt_rec)
  have h: "(0::nat) < 2" by simp
  show ?thesis unfolding firstPartitioning_blocks[OF h] by (simp add: u)
qed

lemma beforeLoop_partitions_2_4: "partitions (data (beforeLoop D 2 4 wc)) = [[0, 1], [2, 3]]"
  by (simp add: beforeLoop_def Let_def firstPartitioning_2_4)

lemma C10a_unit: "\<forall>u\<in>set docs_C10a. length u = 2 \<and> rdot u u = 1"
  by (simp add: docs_C10a_def rdot_2)

lemma C10b_unit: "\<forall>u\<in>set docs_C10b. length u = 2 \<and> rdot u u = 1"
  by (simp add: docs_C10b_def rdot_2)

lemma C10a_len: "length docs_C10a = 4"
  by (simp add: docs_C10a_def)

lemma C10b_len: "length docs_C10b = 4"
  by (simp add: docs_C10b_def)

lemma C10a_nth:
  "docs_C10a ! 0 = [1, 0]" "docs_C10a ! 1 = [1, 0]" "docs_C10a ! Suc 0 = [1, 0]"
  "docs_C10a ! 2 = [6399 / 6401, 160 / 6401]" "docs_C10a ! 3 = [312 / 313, 25 / 313]"
  by (simp_all add: docs_C10a_def)

lemma C10b_nth:
  "docs_C10b ! 0 = [1, 0]" "docs_C10b ! 1 = [6399 / 6401, 160 / 6401]"
  "docs_C10b ! Suc 0 = [6399 / 6401, 160 / 6401]"
  "docs_C10b ! 2 = [1, 0]" "docs_C10b ! 3 = [312 / 313, 25 / 313]"
  by (simp_all add: docs_C10b_def)

lemma C10a_sums:
  "rsum docs_C10a [0, 1] 2 = [2, 0]"
  "rsum docs_C10a [2, 3] 2 = [3999999 / 2003513, 210105 / 2003513]"
  "rsum docs_C10a [0, 1, 2] 2 = [19201 / 6401, 160 / 6401]"
  "rsum docs_C10a [3] 2 = [312 / 313, 25 / 313]"
  by (simp_all add: rsum_2 C10a_nth)

lemma C10b_sums:
  "rsum docs_C10b [0, 1] 2 = [12800 / 6401, 160 / 6401]"
  "rsum docs_C10b [2, 3] 2 = [625 / 313, 25 / 313]"
  "rsum docs_C10b [0, 1, 2] 2 = [19201 / 6401, 160 / 6401]"
  "rsum docs_C10b [3] 2 = [312 / 313, 25 / 313]"
  by (simp_all add: rsum_2 C10b_nth)

lemma C10a_norms:
  "rnorm (rsum docs_C10a [0, 1] 2) = 2"
  "rnorm (rsum docs_C10a [2, 3] 2) = sqrt (8008002 / 2003513)"
  "rnorm (rsum docs_C10a [0, 1, 2] 2) = sqrt (57601 / 6401)"
  "rnorm (rsum docs_C10a [3] 2) = 1"
  unfolding C10a_sums rnorm_2 by simp_all

lemma C10b_norms:
  "rnorm (rsum docs_C10b [0, 1] 2) = sqrt (25600 / 6401)"
  "rnorm (rsum docs_C10b [2, 3] 2) = sqrt (1250 / 313)"
  "rnorm (rsum docs_C10b [0, 1, 2] 2) = sqrt (57601 / 6401)"
  "rnorm (rsum docs_C10b [3] 2) = 1"
  unfolding C10b_sums rnorm_2 by simp_all

lemma C10a_nonzero:
  "rnorm (rsum docs_C10a [0, 1] 2) \<noteq> 0"
  "rnorm (rsum docs_C10a [2, 3] 2) \<noteq> 0"
  "rnorm (rsum docs_C10a [0, 1, 2] 2) \<noteq> 0"
  "rnorm (rsum docs_C10a [3] 2) \<noteq> 0"
  unfolding C10a_norms by simp_all

lemma C10b_nonzero:
  "rnorm (rsum docs_C10b [0, 1] 2) \<noteq> 0"
  "rnorm (rsum docs_C10b [2, 3] 2) \<noteq> 0"
  "rnorm (rsum docs_C10b [0, 1, 2] 2) \<noteq> 0"
  "rnorm (rsum docs_C10b [3] 2) \<noteq> 0"
  unfolding C10b_norms by simp_all

lemma C10_sqrt_bounds:
  "sqrt (57601 / 6401) \<le> 2999792 / 1000000"
  "2999791 / 1000000 \<le> sqrt (57601 / 6401)"
  "1999244 / 1000000 \<le> sqrt (8008002 / 2003513)"
  "sqrt (25600 / 6401) \<le> 1999844 / 1000000"
  "sqrt (1250 / 313) \<le> 1998402 / 1000000"
proof -
  show "sqrt (57601 / 6401) \<le> 2999792 / 1000000" by (rule sqrt_le) simp_all
  show "2999791 / 1000000 \<le> sqrt (57601 / 6401)" by (rule sqrt_ge) simp
  show "1999244 / 1000000 \<le> sqrt (8008002 / 2003513)" by (rule sqrt_ge) simp
  show "sqrt (25600 / 6401) \<le> 1999844 / 1000000" by (rule sqrt_le) simp_all
  show "sqrt (1250 / 313) \<le> 1998402 / 1000000" by (rule sqrt_le) simp_all
qed

lemma C10a_cmp0:
  "(rdot (docs_C10a ! 0) (rsum docs_C10a [0, 1] 2) / rnorm (rsum docs_C10a [0, 1] 2)
      < rdot (docs_C10a ! 0) (rsum docs_C10a [2, 3] 2) / rnorm (rsum docs_C10a [2, 3] 2)) = False"
  "(rdot (docs_C10a ! 1) (rsum docs_C10a [0, 1] 2) / rnorm (rsum docs_C10a [0, 1] 2)
      < rdot (docs_C10a ! 1) (rsum docs_C10a [2, 3] 2) / rnorm (rsum docs_C10a [2, 3] 2)) = False"
  "(rdot (docs_C10a ! 2) (rsum docs_C10a [0, 1] 2) / rnorm (rsum docs_C10a [0, 1] 2)
      < rdot (docs_C10a ! 2) (rsum docs_C10a [2, 3] 2) / rnorm (rsum docs_C10a [2, 3] 2)) = False"
  "(rdot (docs_C10a ! 3) (rsum docs_C10a [0, 1] 2) / rnorm (rsum docs_C10a [0, 1] 2)
      < rdot (docs_C10a ! 3) (rsum docs_C10a [2, 3] 2) / rnorm (rsum docs_C10a [2, 3] 2)) = True"
proof -
  show "(rdot (docs_C10a ! 0) (rsum docs_C10a [0, 1] 2) / rnorm (rsum docs_C10a [0, 1] 2)
      < rdot (docs_C10a ! 0) (rsum docs_C10a [2, 3] 2) / rnorm (rsum docs_C10a [2, 3] 2)) = False"
    by (subst cmp_rule[OF C10a_sums(1) C10a_sums(2) C10a_nth(1)]) simp_all
  show "(rdot (docs_C10a ! 1) (rsum docs_C10a [0, 1] 2) / rnorm (rsum docs_C10a [0, 1] 2)
      < rdot (docs_C10a ! 1) (rsum docs_C10a [2, 3] 2) / rnorm (rsum docs_C10a [2, 3] 2)) = False"
    by (subst cmp_rule[OF C10a_sums(1) C10a_sums(2) C10a_nth(2)]) simp_all
  show "(rdot (docs_C10a ! 2) (rsum docs_C10a [0, 1] 2) / rnorm (rsum docs_C10a [0, 1] 2)
      < rdot (docs_C10a ! 2) (rsum docs_C10a [2, 3] 2) / rnorm (rsum docs_C10a [2, 3] 2)) = False"
    by (subst cmp_rule[OF C10a_sums(1) C10a_sums(2) C10a_nth(4)]) simp_all
  show "(rdot (docs_C10a ! 3) (rsum docs_C10a [0, 1] 2) / rnorm (rsum docs_C10a [0, 1] 2)
      < rdot (docs_C10a ! 3) (rsum docs_C10a [2, 3] 2) / rnorm (rsum docs_C10a [2, 3] 2)) = True"
    by (subst cmp_rule[OF C10a_sums(1) C10a_sums(2) C10a_nth(5)]) simp_all
qed

lemma C10a_cmp1:
  "(rdot (docs_C10a ! 0) (rsum docs_C10a [0, 1, 2] 2) / rnorm (rsum docs_C10a [0, 1, 2] 2)
      < rdot (docs_C10a ! 0) (rsum docs_C10a [3] 2) / rnorm (rsum docs_C10a [3] 2)) = False"
  "(rdot (docs_C10a ! 1) (rsum docs_C10a [0, 1, 2] 2) / rnorm (rsum docs_C10a [0, 1, 2] 2)
      < rdot (docs_C10a ! 1) (rsum docs_C10a [3] 2) / rnorm (rsum docs_C10a [3] 2)) = False"
  "(rdot (docs_C10a ! 2) (rsum docs_C10a [0, 1, 2] 2) / rnorm (rsum docs_C10a [0, 1, 2] 2)
      < rdot (docs_C10a ! 2) (rsum docs_C10a [3] 2) / rnorm (rsum docs_C10a [3] 2)) = False"
  "(rdot (docs_C10a ! 3) (rsum docs_C10a [0, 1, 2] 2) / rnorm (rsum docs_C10a [0, 1, 2] 2)
      < rdot (docs_C10a ! 3) (rsum docs_C10a [3] 2) / rnorm (rsum docs_C10a [3] 2)) = True"
proof -
  show "(rdot (docs_C10a ! 0) (rsum docs_C10a [0, 1, 2] 2) / rnorm (rsum docs_C10a [0, 1, 2] 2)
      < rdot (docs_C10a ! 0) (rsum docs_C10a [3] 2) / rnorm (rsum docs_C10a [3] 2)) = False"
    by (subst cmp_rule[OF C10a_sums(3) C10a_sums(4) C10a_nth(1)]) simp_all
  show "(rdot (docs_C10a ! 1) (rsum docs_C10a [0, 1, 2] 2) / rnorm (rsum docs_C10a [0, 1, 2] 2)
      < rdot (docs_C10a ! 1) (rsum docs_C10a [3] 2) / rnorm (rsum docs_C10a [3] 2)) = False"
    by (subst cmp_rule[OF C10a_sums(3) C10a_sums(4) C10a_nth(2)]) simp_all
  show "(rdot (docs_C10a ! 2) (rsum docs_C10a [0, 1, 2] 2) / rnorm (rsum docs_C10a [0, 1, 2] 2)
      < rdot (docs_C10a ! 2) (rsum docs_C10a [3] 2) / rnorm (rsum docs_C10a [3] 2)) = False"
    by (subst cmp_rule[OF C10a_sums(3) C10a_sums(4) C10a_nth(4)]) simp_all
  show "(rdot (docs_C10a ! 3) (rsum docs_C10a [0, 1, 2] 2) / rnorm (rsum docs_C10a [0, 1, 2] 2)
      < rdot (docs_C10a ! 3) (rsum docs_C10a [3] 2) / rnorm (rsum docs_C10a [3] 2)) = True"
    by (subst cmp_rule[OF C10a_sums(3) C10a_sums(4) C10a_nth(5)]) simp_all
qed

lemma C10b_cmp0:
  "(rdot (docs_C10b ! 0) (rsum docs_C10b [0, 1] 2) / rnorm (rsum docs_C10b [0, 1] 2)
      < rdot (docs_C10b ! 0) (rsum docs_C10b [2, 3] 2) / rnorm (rsum docs_C10b [2, 3] 2)) = False"
  "(rdot (docs_C10b ! 1) (rsum docs_C10b [0, 1] 2) / rnorm (rsum docs_C10b [0, 1] 2)
      < rdot (docs_C10b ! 1) (rsum docs_C10b [2, 3] 2) / rnorm (rsum docs_C10b [2, 3] 2)) = False"
  "(rdot (docs_C10b ! 2) (rsum docs_C10b [0, 1] 2) / rnorm (rsum docs_C10b [0, 1] 2)
      < rdot (docs_C10b ! 2) (rsum docs_C10b [2, 3] 2) / rnorm (rsum docs_C10b [2, 3] 2)) = False"
  "(rdot (docs_C10b ! 3) (rsum docs_C10b [0, 1] 2) / rnorm (rsum docs_C10b [0, 1] 2)
      < rdot (docs_C10b ! 3) (rsum docs_C10b [2, 3] 2) / rnorm (rsum docs_C10b [2, 3] 2)) = True"
proof -
  show "(rdot (docs_C10b ! 0) (rsum docs_C10b [0, 1] 2) / rnorm (rsum docs_C10b [0, 1] 2)
      < rdot (docs_C10b ! 0) (rsum docs_C10b [2, 3] 2) / rnorm (rsum docs_C10b [2, 3] 2)) = False"
    by (subst cmp_rule[OF C10b_sums(1) C10b_sums(2) C10b_nth(1)]) simp_all
  show "(rdot (docs_C10b ! 1) (rsum docs_C10b [0, 1] 2) / rnorm (rsum docs_C10b [0, 1] 2)
      < rdot (docs_C10b ! 1) (rsum docs_C10b [2, 3] 2) / rnorm (rsum docs_C10b [2, 3] 2)) = False"
    by (subst cmp_rule[OF C10b_sums(1) C10b_sums(2) C10b_nth(2)]) simp_all
  show "(rdot (docs_C10b ! 2) (rsum docs_C10b [0, 1] 2) / rnorm (rsum docs_C10b [0, 1] 2)
      < rdot (docs_C10b ! 2) (rsum docs_C10b [2, 3] 2) / rnorm (rsum docs_C10b [2, 3] 2)) = False"
    by (subst cmp_rule[OF C10b_sums(1) C10b_sums(2) C10b_nth(4)]) simp_all
  show "(rdot (docs_C10b ! 3) (rsum docs_C10b [0, 1] 2) / rnorm (rsum docs_C10b [0, 1] 2)
      < rdot (docs_C10b ! 3) (rsum docs_C10b [2, 3] 2) / rnorm (rsum docs_C10b [2, 3] 2)) = True"
    by (subst cmp_rule[OF C10b_sums(1) C10b_sums(2) C10b_nth(5)]) simp_all
qed

lemma C10b_cmp1:
  "(rdot (docs_C10b ! 0) (rsum docs_C10b [0, 1, 2] 2) / rnorm (rsum docs_C10b [0, 1, 2] 2)
      < rdot (docs_C10b ! 0) (rsum docs_C10b [3] 2) / rnorm (rsum docs_C10b [3] 2)) = False"
  "(rdot (docs_C10b ! 1) (rsum docs_C10b [0, 1, 2] 2) / rnorm (rsum docs_C10b [0, 1, 2] 2)
      < rdot (docs_C10b ! 1) (rsum docs_C10b [3] 2) / rnorm (rsum docs_C10b [3] 2)) = False"
  "(rdot (docs_C10b ! 2) (rsum docs_C10b [0, 1, 2] 2) / rnorm (rsum docs_C10b [0, 1, 2] 2)
      < rdot (docs_C10b ! 2) (rsum docs_C10b [3] 2) / rnorm (rsum docs_C10b [3] 2)) = False"
  "(rdot (docs_C10b ! 3) (rsum docs_C10b [0, 1, 2] 2) / rnorm (rsum docs_C10b [0, 1, 2] 2)
      < rdot (docs_C10b ! 3) (rsum docs_C10b [3] 2) / rnorm (rsum docs_C10b [3] 2)) = True"
proof -
  show "(rdot (docs_C10b ! 0) (rsum docs_C10b [0, 1, 2] 2) / rnorm (rsum docs_C10b [0, 1, 2] 2)
      < rdot (docs_C10b ! 0) (rsum docs_C10b [3] 2) / rnorm (rsum docs_C10b [3] 2)) = False"
    by (subst cmp_rule[OF C10b_sums(3) C10b_sums(4) C10b_nth(1)]) simp_all
  show "(rdot (docs_C10b ! 1) (rsum docs_C10b [0, 1, 2] 2) / rnorm (rsum docs_C10b [0, 1, 2] 2)
      < rdot (docs_C10b ! 1) (rsum docs_C10b [3] 2) / rnorm (rsum docs_C10b [3] 2)) = False"
    by (subst cmp_rule[OF C10b_sums(3) C10b_sums(4) C10b_nth(2)]) simp_all
  show "(rdot (docs_C10b ! 2) (rsum docs_C10b [0, 1, 2] 2) / rnorm (rsum docs_C10b [0, 1, 2] 2)
      < rdot (docs_C10b ! 2) (rsum docs_C10b [3] 2) / rnorm (rsum docs_C10b [3] 2)) = False"
    by (subst cmp_rule[OF C10b_sums(3) C10b_sums(4) C10b_nth(4)]) simp_all
  show "(rdot (docs_C10b ! 3) (rsum docs_C10b [0, 1, 2] 2) / rnorm (rsum docs_C10b [0, 1, 2] 2)
      < rdot (docs_C10b ! 3) (rsum docs_C10b [3] 2) / rnorm (rsum docs_C10b [3] 2)) = True"
    by (subst cmp_rule[OF C10b_sums(3) C10b_sums(4) C10b_nth(5)]) simp_all
qed

lemma C10a_valid: "valid_input (map (map Fin) docs_C10a) 2 4 2"
  by (simp add: valid_input_def docs_C10a_def)

lemma C10b_valid: "valid_input (map (map Fin) docs_C10b) 2 4 2"
  by (simp add: valid_input_def docs_C10b_def)

lemma C10a_txn: "txnScheme (map (map Fin) docs_C10a) 4 2 = map (map Fin) docs_C10a"
  using C10a_len C10a_unit by (rule txnScheme_unit)

lemma C10b_txn: "txnScheme (map (map Fin) docs_C10b) 4 2 = map (map Fin) docs_C10b"
  using C10b_len C10b_unit by (rule txnScheme_unit)

lemma C10a_step1:
  "partitions (data (loopBody (map (map Fin) docs_C10a) (beforeLoop (map (map Fin) docs_C10a) 2 4 2)))
     = [[0, 1, 2], [3]]"
  "coherent (map (map Fin) docs_C10a) 2 4 2
     (loopBody (map (map Fin) docs_C10a) (beforeLoop (map (map Fin) docs_C10a) 2 4 2))"
  "dQ (loopBody (map (map Fin) docs_C10a) (beforeLoop (map (map Fin) docs_C10a) 2 4 2)) =
     Fin (sqrt (57601 / 6401) + 1 - (2 + sqrt (8008002 / 2003513)))"
  "iterations (loopBody (map (map Fin) docs_C10a) (beforeLoop (map (map Fin) docs_C10a) 2 4 2)) = 1"
proof -
  let ?D = "map (map Fin) docs_C10a"
  let ?s1 = "loopBody ?D (beforeLoop ?D 2 4 2)"
  have co: "coherent ?D 2 4 2 (beforeLoop ?D 2 4 2)" by (rule coherent_beforeLoop) simp
  note st = loopBody_two[OF C10a_unit C10a_len co beforeLoop_partitions_2_4 C10a_nonzero(1,2)]
  show P1: "partitions (data ?s1) = [[0, 1, 2], [3]]"
    unfolding st(1)
    by (simp only: upt_4 filter.simps C10a_cmp0 not_False_eq_True not_True_eq_False if_True if_False)
  show co1: "coherent ?D 2 4 2 ?s1" by (rule st(3))
  have q0: "quality (beforeLoop ?D 2 4 2) = Fin (2 + sqrt (8008002 / 2003513))"
    unfolding st(2) C10a_norms ..
  have q1: "quality ?s1 = Fin (sqrt (57601 / 6401) + 1)"
    using loopBody_two(2)[OF C10a_unit C10a_len co1 P1 C10a_nonzero(3,4)] unfolding C10a_norms .
  show "dQ ?s1 = Fin (sqrt (57601 / 6401) + 1 - (2 + sqrt (8008002 / 2003513)))"
    unfolding st(4) q0 q1 fsub_Fin ..
  show "iterations ?s1 = 1" unfolding st(5) by (simp add: iterations_beforeLoop)
qed

lemma C10b_step1:
  "partitions (data (loopBody (map (map Fin) docs_C10b) (beforeLoop (map (map Fin) docs_C10b) 2 4 2)))
     = [[0, 1, 2], [3]]"
  "coherent (map (map Fin) docs_C10b) 2 4 2
     (loopBody (map (map Fin) docs_C10b) (beforeLoop (map (map Fin) docs_C10b) 2 4 2))"
  "dQ (loopBody (map (map Fin) docs_C10b) (beforeLoop (map (map Fin) docs_C10b) 2 4 2)) =
     Fin (sqrt (57601 / 6401) + 1 - (sqrt (25600 / 6401) + sqrt (1250 / 313)))"
  "quality (loopBody (map (map Fin) docs_C10b) (beforeLoop (map (map Fin) docs_C10b) 2 4 2)) =
     Fin (sqrt (57601 / 6401) + 1)"
  "iterations (loopBody (map (map Fin) docs_C10b) (beforeLoop (map (map Fin) docs_C10b) 2 4 2)) = 1"
proof -
  let ?D = "map (map Fin) docs_C10b"
  let ?s1 = "loopBody ?D (beforeLoop ?D 2 4 2)"
  have co: "coherent ?D 2 4 2 (beforeLoop ?D 2 4 2)" by (rule coherent_beforeLoop) simp
  note st = loopBody_two[OF C10b_unit C10b_len co beforeLoop_partitions_2_4 C10b_nonzero(1,2)]
  show P1: "partitions (data ?s1) = [[0, 1, 2], [3]]"
    unfolding st(1)
    by (simp only: upt_4 filter.simps C10b_cmp0 not_False_eq_True not_True_eq_False if_True if_False)
  show co1: "coherent ?D 2 4 2 ?s1" by (rule st(3))
  have q0: "quality (beforeLoop ?D 2 4 2) = Fin (sqrt (25600 / 6401) + sqrt (1250 / 313))"
    unfolding st(2) C10b_norms ..
  show q1: "quality ?s1 = Fin (sqrt (57601 / 6401) + 1)"
    using loopBody_two(2)[OF C10b_unit C10b_len co1 P1 C10b_nonzero(3,4)] unfolding C10b_norms .
  show "dQ ?s1 = Fin (sqrt (57601 / 6401) + 1 - (sqrt (25600 / 6401) + sqrt (1250 / 313)))"
    unfolding st(4) q0 q1 fsub_Fin ..
  show "iterations ?s1 = 1" unfolding st(5) by (simp add: iterations_beforeLoop)
qed

lemma C10b_step2:
  "partitions (data (loopBody (map (map Fin) docs_C10b)
      (loopBody (map (map Fin) docs_C10b) (beforeLoop (map (map Fin) docs_C10b) 2 4 2))))
     = [[0, 1, 2], [3]]"
  "coherent (map (map Fin) docs_C10b) 2 4 2 (loopBody (map (map Fin) docs_C10b)
      (loopBody (map (map Fin) docs_C10b) (beforeLoop (map (map Fin) docs_C10b) 2 4 2)))"
  "dQ (loopBody (map (map Fin) docs_C10b)
      (loopBody (map (map Fin) docs_C10b) (beforeLoop (map (map Fin) docs_C10b) 2 4 2))) = Fin 0"
  "iterations (loopBody (map (map Fin) docs_C10b)
      (loopBody (map (map Fin) docs_C10b) (beforeLoop (map (map Fin) docs_C10b) 2 4 2))) = 2"
proof -
  let ?D = "map (map Fin) docs_C10b"
  let ?s1 = "loopBody ?D (beforeLoop ?D 2 4 2)"
  let ?s2 = "loopBody ?D ?s1"
  note st = loopBody_two[OF C10b_unit C10b_len C10b_step1(2) C10b_step1(1) C10b_nonzero(3,4)]
  show P2: "partitions (data ?s2) = [[0, 1, 2], [3]]"
    unfolding st(1)
    by (simp only: upt_4 filter.simps C10b_cmp1 not_False_eq_True not_True_eq_False if_True if_False)
  show co2: "coherent ?D 2 4 2 ?s2" by (rule st(3))
  have q2: "quality ?s2 = Fin (sqrt (57601 / 6401) + 1)"
    using loopBody_two(2)[OF C10b_unit C10b_len co2 P2 C10b_nonzero(3,4)] unfolding C10b_norms .
  show "dQ ?s2 = Fin 0"
    unfolding st(4) q2 C10b_step1(4) fsub_Fin by simp
  show "iterations ?s2 = 2" unfolding st(5) C10b_step1(5) by simp
qed

lemma C10a_run:
  "runSPKMeans_locals (map (map Fin) docs_C10a) 2 4 2 =
     Some (loopBody (map (map Fin) docs_C10a) (beforeLoop (map (map Fin) docs_C10a) 2 4 2))"
proof -
  let ?D = "map (map Fin) docs_C10a"
  have a: "\<forall>i<1. fgt (dQ ((loopBody ?D ^^ i) (beforeLoop ?D 2 4 2))) Q_THRESHOLD"
    by (simp add: dQ_beforeLoop)
  have "\<not> fgt (dQ (loopBody ?D (beforeLoop ?D 2 4 2))) Q_THRESHOLD"
    unfolding C10a_step1(3) Q_THRESHOLD_def using C10_sqrt_bounds by simp
  then have b: "\<not> fgt (dQ ((loopBody ?D ^^ 1) (beforeLoop ?D 2 4 2))) Q_THRESHOLD" by simp
  have "spkLoop ?D (beforeLoop ?D 2 4 2) = Some ((loopBody ?D ^^ 1) (beforeLoop ?D 2 4 2))"
    using a b by (rule spkLoop_stops)
  then show ?thesis
    using C10a_valid by (simp add: runSPKMeans_locals_def C10a_txn Let_def)
qed

lemma C10b_run:
  "runSPKMeans_locals (map (map Fin) docs_C10b) 2 4 2 =
     Some (loopBody (map (map Fin) docs_C10b)
        (loopBody (map (map Fin) docs_C10b) (beforeLoop (map (map Fin) docs_C10b) 2 4 2)))"
proof -
  let ?D = "map (map Fin) docs_C10b"
  have f2: "(loopBody ?D ^^ 2) s = loopBody ?D (loopBody ?D s)" for s
    by (simp add: numeral_2_eq_2)
  have g1: "fgt (dQ (loopBody ?D (beforeLoop ?D 2 4 2))) Q_THRESHOLD"
    unfolding C10b_step1(3) Q_THRESHOLD_def using C10_sqrt_bounds by simp
  have a: "\<forall>i<2. fgt (dQ ((loopBody ?D ^^ i) (beforeLoop ?D 2 4 2))) Q_THRESHOLD"
    using g1 by (simp add: all_less_2 dQ_beforeLoop)
  have "\<not> fgt (dQ (loopBody ?D (loopBody ?D (beforeLoop ?D 2 4 2)))) Q_THRESHOLD"
    unfolding C10b_step2(3) Q_THRESHOLD_def by simp
  then have b: "\<not> fgt (dQ ((loopBody ?D ^^ 2) (beforeLoop ?D 2 4 2))) Q_THRESHOLD"
    by (simp add: f2)
  have "spkLoop ?D (beforeLoop ?D 2 4 2) = Some ((loopBody ?D ^^ 2) (beforeLoop ?D 2 4 2))"
    using a b by (rule spkLoop_stops)
  then have "spkLoop ?D (beforeLoop ?D 2 4 2) = Some (loopBody ?D (loopBody ?D (beforeLoop ?D 2 4 2)))"
    by (simp add: f2)
  then show ?thesis
    using C10b_valid by (simp add: runSPKMeans_locals_def C10b_txn Let_def)
qed

lemma C10_same_data:
  "data (loopBody (map (map Fin) docs_C10a) (beforeLoop (map (map Fin) docs_C10a) 2 4 2)) =
   data (loopBody (map (map Fin) docs_C10b)
        (loopBody (map (map Fin) docs_C10b) (beforeLoop (map (map Fin) docs_C10b) 2 4 2)))"
proof -
  have nza: "\<forall>p\<in>set (partitions (data (loopBody (map (map Fin) docs_C10a)
      (beforeLoop (map (map Fin) docs_C10a) 2 4 2)))). rnorm (rsum docs_C10a p 2) \<noteq> 0"
    unfolding C10a_step1(1) using C10a_nonzero(3,4) by simp
  have nzb: "\<forall>p\<in>set (partitions (data (loopBody (map (map Fin) docs_C10b)
      (loopBody (map (map Fin) docs_C10b) (beforeLoop (map (map Fin) docs_C10b) 2 4 2))))).
      rnorm (rsum docs_C10b p 2) \<noteq> 0"
    unfolding C10b_step2(1) using C10b_nonzero(3,4) by simp
  have c: "rconcept docs_C10a [0, 1, 2] 2 = rconcept docs_C10b [0, 1, 2] 2"
    "rconcept docs_C10a [3] 2 = rconcept docs_C10b [3] 2"
    unfolding rconcept_def C10a_sums C10b_sums by (rule refl)+
  show ?thesis
    by (subst data_coherent[OF C10a_unit C10a_len C10a_step1(2) nza],
        subst data_coherent[OF C10b_unit C10b_len C10b_step2(2) nzb])
       (simp only: C10a_step1(1) C10b_step2(1) list.map c)
qed

lemma fle_finite: "fle a b \<Longrightarrow> a \<noteq> NaN"
  by (simp add: fle_def)

lemma C10b_step3:
  "partitions (data (loopBody (map (map Fin) docs_C10b) (loopBody (map (map Fin) docs_C10b)
      (loopBody (map (map Fin) docs_C10b) (beforeLoop (map (map Fin) docs_C10b) 2 4 2)))))
     = [[0, 1, 2], [3]]"
  unfolding loopBody_two(1)[OF C10b_unit C10b_len C10b_step2(2) C10b_step2(1) C10b_nonzero(3,4)]
  by (simp only: upt_4 filter.simps C10b_cmp1 not_False_eq_True not_True_eq_False if_True if_False)

section \<open>The claims\<close>

text \<open>
  C4: for every \<open>k \<ge> 1\<close> (in particular for \<open>1 \<le> k \<le> dc\<close>) the first partitioning is
  a function of \<open>dc\<close> and \<open>k\<close> alone and consists of \<open>k\<close> contiguous blocks: each of the
  first \<open>k - 1\<close> blocks holds the \<open>dc div k\<close> consecutive documents from \<open>i * (dc div k)\<close>
  on and is recorded with size \<open>dc div k\<close>, the last block holds the remaining documents up to
  \<open>dc\<close> and is recorded with size \<open>dc div k + dc mod k\<close>, and the blocks in order make up
  the list of all documents \<open>0, \<dots>, dc - 1\<close>, each document once.
\<close>

theorem C4_initial_partitioning:
  assumes "0 < k"
  shows "length (firstPartitioning k dc) = k \<and>
     (\<forall>i<k. i \<noteq> k - 1 \<longrightarrow>
        firstPartitioning k dc ! i = ([i * (dc div k) ..< (i + 1) * (dc div k)], int (dc div k))) \<and>
     firstPartitioning k dc ! (k - 1) = ([(k - 1) * (dc div k) ..< dc], int (dc div k + dc mod k)) \<and>
     concat (map fst (firstPartitioning k dc)) = [0..<dc]"
proof -
  let ?s = "dc div k"
  have fp: "firstPartitioning k dc =
       map (\<lambda>i. ([i * ?s ..< (if i = k - 1 then dc else (i + 1) * ?s)],
                  int (if i = k - 1 then dc - i * ?s else ?s))) [0..<k]"
    using assms by (rule firstPartitioning_blocks)
  have len: "length (firstPartitioning k dc) = k" by (simp add: fp)
  have mid: "\<forall>i<k. i \<noteq> k - 1 \<longrightarrow>
        firstPartitioning k dc ! i = ([i * ?s ..< (i + 1) * ?s], int ?s)"
    by (simp add: fp)
  have "k * ?s + dc mod k = dc" by simp
  then have "(k - 1) * ?s + ?s + dc mod k = dc"
    using assms by (metis Suc_diff_1 mult_Suc add.commute)
  then have rest: "dc - (k - 1) * ?s = ?s + dc mod k" by simp
  have last: "firstPartitioning k dc ! (k - 1) = ([(k - 1) * ?s ..< dc], int (?s + dc mod k))"
    using assms rest by (simp add: fp)
  from len mid last firstPartitioning_concat[OF assms] show ?thesis by blast
qed

theorem C4_initial_partitioning_witness:
  "(0::nat) < 2 \<and> length (firstPartitioning 2 5) = 2 \<and>
   firstPartitioning 2 5 ! 0 = ([0, 1], 2) \<and>
   firstPartitioning 2 5 ! 1 = ([2, 3, 4], 3) \<and>
   concat (map fst (firstPartitioning 2 5)) = [0, 1, 2, 3, 4]"
proof -
  have h: "(0::nat) < 2" by simp
  have u: "[0..<2] = [0, Suc 0]" "[2..<5] = [2, 3, 4]" "[0..<5] = [0, 1, 2, 3, 4]"
    by (simp_all add: upt_rec)
  show ?thesis using C4_initial_partitioning [OF h, of 5] by (simp add: u)
qed


text \<open>
  C1: the loop variable \<open>dQ\<close> is above the threshold when the loop is first reached, so
  the body runs at least once. The run ends with the local state \<open>t\<close> exactly when \<open>t\<close> is
  the state after some number \<open>n \<ge> 1\<close> of executions of the body, the iteration counter is
  \<open>n\<close>, the comparison \<open>dQ > Q_THRESHOLD\<close> held before each of the \<open>n\<close> executions and
  fails in \<open>t\<close>; nothing is executed after that. In particular the first iteration whose
  \<open>dQ\<close> is at most the threshold is the last one.
\<close>

theorem C1_loop_condition:
  assumes "valid_input D k dc wc"
  shows "fgt (dQ (beforeLoop (txnScheme D dc wc) k dc wc)) Q_THRESHOLD \<and>
     (\<forall>t. runSPKMeans_locals D k dc wc = Some t \<longleftrightarrow>
        (\<exists>n. 1 \<le> n \<and> iterations t = n \<and>
             t = (loopBody (txnScheme D dc wc) ^^ n) (beforeLoop (txnScheme D dc wc) k dc wc) \<and>
             \<not> fgt (dQ t) Q_THRESHOLD \<and>
             (\<forall>i<n. fgt (dQ ((loopBody (txnScheme D dc wc) ^^ i)
                               (beforeLoop (txnScheme D dc wc) k dc wc))) Q_THRESHOLD))) \<and>
     (\<forall>n. (\<forall>i<n. fgt (dQ ((loopBody (txnScheme D dc wc) ^^ i)
                               (beforeLoop (txnScheme D dc wc) k dc wc))) Q_THRESHOLD) \<and>
          fle (dQ ((loopBody (txnScheme D dc wc) ^^ n)
                               (beforeLoop (txnScheme D dc wc) k dc wc))) Q_THRESHOLD \<longrightarrow>
          runSPKMeans_locals D k dc wc =
            Some ((loopBody (txnScheme D dc wc) ^^ n) (beforeLoop (txnScheme D dc wc) k dc wc)))"
proof -
  let ?D = "txnScheme D dc wc"
  let ?s0 = "beforeLoop ?D k dc wc"
  let ?st = "\<lambda>n. (loopBody ?D ^^ n) ?s0"
  have run: "runSPKMeans_locals D k dc wc = spkLoop ?D ?s0"
    using assms by (simp add: runSPKMeans_locals_def Let_def)
  have first: "fgt (dQ ?s0) Q_THRESHOLD" by (rule dQ_beforeLoop)
  have iff: "runSPKMeans_locals D k dc wc = Some t \<longleftrightarrow>
        (\<exists>n. 1 \<le> n \<and> iterations t = n \<and> t = ?st n \<and> \<not> fgt (dQ t) Q_THRESHOLD \<and>
             (\<forall>i<n. fgt (dQ (?st i)) Q_THRESHOLD))" for t
  proof
    assume "runSPKMeans_locals D k dc wc = Some t"
    then have "spkLoop ?D ?s0 = Some t" by (simp add: run)
    from spkLoop_Some[OF this] obtain n where n: "t = ?st n" "\<not> fgt (dQ t) Q_THRESHOLD"
      "\<forall>i<n. fgt (dQ (?st i)) Q_THRESHOLD" by blast
    have "n \<noteq> 0" using n(1,2) first by (cases n) auto
    moreover have "iterations t = n"
      using n(1) by (simp add: iterations_funpow iterations_beforeLoop)
    ultimately show "\<exists>n. 1 \<le> n \<and> iterations t = n \<and> t = ?st n \<and> \<not> fgt (dQ t) Q_THRESHOLD \<and>
             (\<forall>i<n. fgt (dQ (?st i)) Q_THRESHOLD)"
      using n by (intro exI[of _ n]) simp
  next
    assume "\<exists>n. 1 \<le> n \<and> iterations t = n \<and> t = ?st n \<and> \<not> fgt (dQ t) Q_THRESHOLD \<and>
             (\<forall>i<n. fgt (dQ (?st i)) Q_THRESHOLD)"
    then obtain n where n: "t = ?st n" "\<not> fgt (dQ t) Q_THRESHOLD"
      "\<forall>i<n. fgt (dQ (?st i)) Q_THRESHOLD" by blast
    have "spkLoop ?D ?s0 = Some (?st n)"
      using n(3) n(2)[unfolded n(1)] by (rule spkLoop_stops)
    then show "runSPKMeans_locals D k dc wc = Some t" by (simp add: run n(1))
  qed
  have stop: "runSPKMeans_locals D k dc wc = Some (?st n)"
    if "\<forall>i<n. fgt (dQ (?st i)) Q_THRESHOLD" "fle (dQ (?st n)) Q_THRESHOLD" for n
    unfolding run using that(1) fle_not_fgt[OF that(2)] by (rule spkLoop_stops)
  from first iff stop show ?thesis by blast
qed

theorem C1_loop_condition_witness:
  "valid_input [[Fin 1, Fin 0], [Fin 0, Fin 1]] 2 2 2 \<and>
   runSPKMeans_locals [[Fin 1, Fin 0], [Fin 0, Fin 1]] 2 2 2 =
     Some \<lparr> data = \<lparr> cd_k = 2, cd_dc = 2, cd_wc = 2, partitions = [[0], [1]], p_sizes = [1, 1],
                     concepts = [[Fin 1, Fin 0], [Fin 0, Fin 1]] \<rparr>,
            quality = Fin 2, dQ = Fin 0, iterations = 1 \<rparr>"
proof -
  let ?D = "[[Fin 1, Fin 0], [Fin 0, Fin 1]]"
  have v: "valid_input ?D 2 2 2" by (simp add: valid_input_def)
  have one: "(loopBody ?D ^^ 1) (beforeLoop ?D 2 2 2) = loopBody ?D (beforeLoop ?D 2 2 2)"
    by simp
  have "fle (dQ ((loopBody ?D ^^ 1) (beforeLoop ?D 2 2 2))) Q_THRESHOLD"
    unfolding one E1_body by (simp add: Q_THRESHOLD_def fle_def)
  moreover have "\<forall>i<1. fgt (dQ ((loopBody ?D ^^ i) (beforeLoop ?D 2 2 2))) Q_THRESHOLD"
    by (simp add: dQ_beforeLoop)
  ultimately have "runSPKMeans_locals ?D 2 2 2 = Some ((loopBody ?D ^^ 1) (beforeLoop ?D 2 2 2))"
    using C1_loop_condition [OF v] unfolding E1_txn by blast
  with v show ?thesis unfolding one E1_body by simp
qed





text \<open>
  C5: after the first partitioning (\<open>n = 0\<close>) and after every execution of the loop body
  (\<open>n > 0\<close>) there are \<open>k\<close> partitions, together they hold every document reference
  \<open>0, \<dots>, dc - 1\<close> exactly once, every document is in exactly one partition, the recorded
  sizes are the lengths of the partitions, and the sizes add up to \<open>dc\<close>.
\<close>

theorem C5_partition_invariant:
  assumes "0 < k"
  shows "length (partitions (data ((loopBody D ^^ n) (beforeLoop D k dc wc)))) = k \<and>
     mset (concat (partitions (data ((loopBody D ^^ n) (beforeLoop D k dc wc))))) = mset [0..<dc] \<and>
     (\<forall>i<dc. \<exists>!j. j < k \<and> i \<in> set (partitions (data ((loopBody D ^^ n) (beforeLoop D k dc wc))) ! j)) \<and>
     p_sizes (data ((loopBody D ^^ n) (beforeLoop D k dc wc))) =
       map (\<lambda>p. int (length p)) (partitions (data ((loopBody D ^^ n) (beforeLoop D k dc wc)))) \<and>
     sum_list (p_sizes (data ((loopBody D ^^ n) (beforeLoop D k dc wc)))) = int dc"
proof -
  let ?d = "data ((loopBody D ^^ n) (beforeLoop D k dc wc))"
  have main: "length (partitions ?d) = k \<and> mset (concat (partitions ?d)) = mset [0..<dc] \<and>
      p_sizes ?d = map (\<lambda>p. int (length p)) (partitions ?d)"
  proof (cases n)
    case 0
    then show ?thesis using beforeLoop_partitions[OF assms, of D dc wc] by simp
  next
    case (Suc m)
    let ?s = "(loopBody D ^^ m) (beforeLoop D k dc wc)"
    have k: "cd_k (data ?s) = k" and dc: "cd_dc (data ?s) = dc"
      by (simp_all add: funpow_params beforeLoop_params)
    have pos: "0 < cd_k (data ?s)" using k assms by simp
    have d: "?d = data (loopBody D ?s)" using Suc by simp
    let ?c = "\<lambda>i. closestConcept (D ! i) (concepts (data ?s)) k (cd_wc (data ?s))"
    have parts: "partitions ?d = map (\<lambda>j. filter (\<lambda>i. ?c i = j) [0..<dc]) [0..<k]"
      unfolding d loopBody_partitions(1)[OF pos] k dc ..
    have "mset (concat (partitions ?d)) = mset (filter (\<lambda>i. ?c i < k) [0..<dc])"
      unfolding parts by (rule mset_concat_filter)
    also have "\<dots> = mset [0..<dc]"
      using closestConcept_spec[OF assms] by simp
    finally have "mset (concat (partitions ?d)) = mset [0..<dc]" .
    moreover have "length (partitions ?d) = k" by (simp add: parts)
    moreover have "p_sizes ?d = map (\<lambda>p. int (length p)) (partitions ?d)"
      unfolding d by (rule loopBody_partitions(2)[OF pos])
    ultimately show ?thesis by blast
  qed
  then have len: "length (partitions ?d) = k" and ms: "mset (concat (partitions ?d)) = mset [0..<dc]"
    and sz: "p_sizes ?d = map (\<lambda>p. int (length p)) (partitions ?d)" by blast+
  have one: "\<forall>i<dc. \<exists>!j. j < k \<and> i \<in> set (partitions ?d ! j)"
    using exactly_one_partition[OF ms] len by simp
  have "sum_list (p_sizes ?d) = int (length (concat (partitions ?d)))"
    unfolding sz by (rule sum_list_lengths)
  also have "length (concat (partitions ?d)) = size (mset (concat (partitions ?d)))" by simp
  also have "\<dots> = dc" unfolding ms by simp
  finally have "sum_list (p_sizes ?d) = int dc" .
  with len ms one sz show ?thesis by blast
qed


theorem C5_partition_invariant_witness:
  "(0::nat) < 2 \<and>
   partitions (data ((loopBody [[Fin 1, Fin 0], [Fin 0, Fin 1]] ^^ 1)
                      (beforeLoop [[Fin 1, Fin 0], [Fin 0, Fin 1]] 2 2 2))) = [[0], [1]] \<and>
   mset (concat (partitions (data ((loopBody [[Fin 1, Fin 0], [Fin 0, Fin 1]] ^^ 1)
                      (beforeLoop [[Fin 1, Fin 0], [Fin 0, Fin 1]] 2 2 2))))) = mset [0..<2] \<and>
   sum_list (p_sizes (data ((loopBody [[Fin 1, Fin 0], [Fin 0, Fin 1]] ^^ 1)
                      (beforeLoop [[Fin 1, Fin 0], [Fin 0, Fin 1]] 2 2 2)))) = 2"
proof -
  have h: "(0::nat) < 2" by simp
  have one: "(loopBody [[Fin 1, Fin 0], [Fin 0, Fin 1]] ^^ 1) (beforeLoop [[Fin 1, Fin 0], [Fin 0, Fin 1]] 2 2 2)
      = loopBody [[Fin 1, Fin 0], [Fin 0, Fin 1]] (beforeLoop [[Fin 1, Fin 0], [Fin 0, Fin 1]] 2 2 2)"
    by simp
  have p: "partitions (data ((loopBody [[Fin 1, Fin 0], [Fin 0, Fin 1]] ^^ 1)
                      (beforeLoop [[Fin 1, Fin 0], [Fin 0, Fin 1]] 2 2 2))) = [[0], [1]]"
    unfolding one E1_body by simp
  show ?thesis
    using C5_partition_invariant [OF h, where D = "[[Fin 1, Fin 0], [Fin 0, Fin 1]]"
        and n = 1 and dc = 2 and wc = 2] p
    by simp
qed








text \<open>
  C9 as stated does not hold: \<open>txnScheme\<close> has no way to report anything, and on the
  matrix with the rows \<open>(0, 0)\<close> and \<open>(1, 0)\<close> it stores \<open>NaN\<close> in both elements of the
  first row; the run then goes on and returns a cluster state whose concept vectors are
  all \<open>NaN\<close>.
\<close>

theorem C9_zero_vector_counterexample:
  "txnScheme [[Fin 0, Fin 0], [Fin 1, Fin 0]] 2 2 = [[NaN, NaN], [Fin 1, Fin 0]] \<and>
   runSPKMeans [[Fin 0, Fin 0], [Fin 1, Fin 0]] 2 2 2 =
     Some \<lparr> cd_k = 2, cd_dc = 2, cd_wc = 2, partitions = [[0, 1], []], p_sizes = [2, 0],
            concepts = [[NaN, NaN], [NaN, NaN]] \<rparr>"
  by (simp add: E3_txn runSPKMeans_def E3_run)


text \<open>
  C9, amended: for an input that contains a document vector of all zeros, the normalization
  pass reports nothing and replaces every element of that document vector by \<open>NaN\<close>.
\<close>

theorem C9_zero_vector_silent_nan:
  assumes "i < dc" "i < length D" "D ! i = replicate wc (Fin 0)"
  shows "txnScheme D dc wc ! i = replicate wc NaN"
proof -
  have z: "replicate wc (Fin 0) = map Fin (replicate wc 0)" by simp
  have "rnorm (replicate wc 0) = 0" by (simp add: rnorm_zero_iff)
  then have "vec_normalize (map Fin (replicate wc 0)) wc = replicate wc NaN"
    by (intro vec_normalize_zero) simp_all
  then have "vec_normalize (D ! i) wc = replicate wc NaN"
    by (simp only: assms(3) z)
  then show ?thesis
    using assms(1,2) by (simp add: txnScheme_def nth_append)
qed

theorem C9_zero_vector_silent_nan_witness:
  "(0::nat) < 2 \<and> 0 < length [[Fin 0, Fin 0], [Fin 1, Fin 0]] \<and>
   [[Fin 0, Fin 0], [Fin 1, Fin 0]] ! 0 = replicate 2 (Fin 0) \<and>
   txnScheme [[Fin 0, Fin 0], [Fin 1, Fin 0]] 2 2 ! 0 = [NaN, NaN]"
proof -
  have h1: "(0::nat) < 2" by simp
  have h2: "0 < length [[Fin 0, Fin 0], [Fin 1, Fin 0]]" by simp
  have h3: "[[Fin 0, Fin 0], [Fin 1, Fin 0]] ! 0 = replicate 2 (Fin 0)"
    by (simp add: numeral_2_eq_2)
  have r: "txnScheme [[Fin 0, Fin 0], [Fin 1, Fin 0]] 2 2 ! 0 = [NaN, NaN]"
    using C9_zero_vector_silent_nan [OF h1 h2 h3] by (simp add: numeral_2_eq_2)
  from h1 h2 h3 r show ?thesis by blast
qed




text \<open>
  C10 as stated fails: the value \<open>runSPKMeans\<close> returns is the cluster state alone. The runs on
  \<open>docs_C10a\<close> and on \<open>docs_C10b\<close> (\<open>k = 2\<close>) return the same cluster state, the first after
  one iteration of the loop and the second after two, so the number of iterations cannot be
  read off the returned value. (Partitions hold row indices; both runs end with partitions
  \<open>[[0, 1, 2], [3]]\<close> and with equal concept vectors.)
\<close>

theorem C10_iteration_count_counterexample:
  "runSPKMeans (map (map Fin) docs_C10a) 2 4 2 = runSPKMeans (map (map Fin) docs_C10b) 2 4 2 \<and>
   runSPKMeans (map (map Fin) docs_C10a) 2 4 2 \<noteq> None \<and>
   map_option iterations (runSPKMeans_locals (map (map Fin) docs_C10a) 2 4 2) = Some 1 \<and>
   map_option iterations (runSPKMeans_locals (map (map Fin) docs_C10b) 2 4 2) = Some 2"
  by (simp add: runSPKMeans_def C10a_run C10b_run C10_same_data C10a_step1(4) C10b_step2(4))


text \<open>
  C10, amended: every run on a valid input ends, after at least one and at most
  \<open>1000 * dc + 1\<close> iterations, and returns to its caller the final cluster state alone:
  the parameters, \<open>k\<close> partitions of document references, their \<open>k\<close> sizes and \<open>k\<close>
  concept vectors. The number of iterations is a local variable and is not part of the
  returned value.
\<close>

theorem C10_returns_cluster_state:
  assumes "valid_input D k dc wc"
  shows "\<exists>t. runSPKMeans_locals D k dc wc = Some t \<and> runSPKMeans D k dc wc = Some (data t) \<and>
     1 \<le> iterations t \<and> iterations t \<le> 1000 * dc + 1 \<and>
     cd_k (data t) = k \<and> cd_dc (data t) = dc \<and> cd_wc (data t) = wc \<and>
     length (partitions (data t)) = k \<and> length (p_sizes (data t)) = k \<and>
     length (concepts (data t)) = k"
proof -
  from assms have k: "0 < k" by (simp add: valid_input_def)
  from runSPKMeans_terminates[OF assms] obtain t where
    t: "runSPKMeans_locals D k dc wc = Some t" "1 \<le> iterations t" "iterations t \<le> 1000 * dc + 1"
       "t = (loopBody (txnScheme D dc wc) ^^ iterations t) (beforeLoop (txnScheme D dc wc) k dc wc)"
    by blast
  have r: "runSPKMeans D k dc wc = Some (data t)" by (simp add: runSPKMeans_def t(1))
  have p: "cd_k (data t) = k" "cd_dc (data t) = dc" "cd_wc (data t) = wc"
    by (subst t(4), simp add: funpow_params beforeLoop_params)+
  have l: "length (partitions (data t)) = k" "length (p_sizes (data t)) = k" "length (concepts (data t)) = k"
    by (subst t(4), simp add: funpow_data_lengths[OF k])+
  from t(1,2,3) r p l show ?thesis by blast
qed

theorem C10_returns_cluster_state_witness:
  "valid_input [[Fin 1, Fin 0], [Fin 0, Fin 1]] 2 2 2 \<and>
   (\<exists>t. runSPKMeans_locals [[Fin 1, Fin 0], [Fin 0, Fin 1]] 2 2 2 = Some t \<and>
        runSPKMeans [[Fin 1, Fin 0], [Fin 0, Fin 1]] 2 2 2 = Some (data t) \<and>
        length (concepts (data t)) = 2)"
proof -
  have v: "valid_input [[Fin 1, Fin 0], [Fin 0, Fin 1]] 2 2 2" by (simp add: valid_input_def)
  from C10_returns_cluster_state [OF v] v show ?thesis by blast
qed

text \<open>
  C8 as stated fails. On the five unit documents \<open>docs_C8\<close> with \<open>k = 2\<close> the first partitioning is
  \<open>[[0, 1], [2, 3, 4]]\<close>; the first iteration moves document 2 and ends with
  \<open>dQ \<approx> 0.00057 \<le> 0.001\<close>, so the loop stops and the state with partitions
  \<open>[[0, 1, 2], [3, 4]]\<close> is returned. One more execution of the loop body on that state moves
  document 3 as well and has \<open>dQ \<approx> 0.00186 > 0.001\<close>.
\<close>

theorem C8_fixed_point_counterexample:
  "runSPKMeans_locals (map (map Fin) docs_C8) 2 5 2 =
     Some (loopBody (txnScheme (map (map Fin) docs_C8) 5 2)
             (beforeLoop (txnScheme (map (map Fin) docs_C8) 5 2) 2 5 2)) \<and>
   fle (dQ (loopBody (txnScheme (map (map Fin) docs_C8) 5 2)
             (beforeLoop (txnScheme (map (map Fin) docs_C8) 5 2) 2 5 2))) Q_THRESHOLD \<and>
   fgt (dQ (loopBody (txnScheme (map (map Fin) docs_C8) 5 2)
          (loopBody (txnScheme (map (map Fin) docs_C8) 5 2)
             (beforeLoop (txnScheme (map (map Fin) docs_C8) 5 2) 2 5 2)))) Q_THRESHOLD \<and>
   partitions (data (loopBody (txnScheme (map (map Fin) docs_C8) 5 2)
             (beforeLoop (txnScheme (map (map Fin) docs_C8) 5 2) 2 5 2))) = [[0, 1, 2], [3, 4]] \<and>
   partitions (data (loopBody (txnScheme (map (map Fin) docs_C8) 5 2)
          (loopBody (txnScheme (map (map Fin) docs_C8) 5 2)
             (beforeLoop (txnScheme (map (map Fin) docs_C8) 5 2) 2 5 2)))) = [[0, 1, 2, 3], [4]]"
  unfolding C8_txn
  using C8_run C8_dQ1_small C8_dQ2_large C8_step1(1) C8_step2(1) by (intro conjI)

text \<open>
  C8, amended: for every run on a valid input that has terminated, if one more
  assignment, recomputation and evaluation step on the final state leaves the partitions
  as they are, then the quality delta of that step is \<open>0\<close>, hence still \<open>\<le> 0.001\<close>. (When the
  step moves a document, its delta may exceed the threshold, as above.)
\<close>

theorem C8_fixed_point_when_stable:
  assumes "valid_input D k dc wc"
    and "runSPKMeans_locals D k dc wc = Some t"
    and "fle (dQ t) Q_THRESHOLD"
    and "partitions (data (loopBody (txnScheme D dc wc) t)) = partitions (data t)"
  shows "dQ (loopBody (txnScheme D dc wc) t) = Fin 0 \<and>
         fle (dQ (loopBody (txnScheme D dc wc) t)) Q_THRESHOLD"
proof -
  let ?D = "txnScheme D dc wc"
  from assms(1) have k: "0 < k" by (simp add: valid_input_def)
  from runSPKMeans_terminates[OF assms(1)] assms(2) obtain n where
    n: "1 \<le> n" "t = (loopBody ?D ^^ n) (beforeLoop ?D k dc wc)" by auto
  then obtain m where m: "n = Suc m" by (cases n) auto
  have co: "coherent ?D k dc wc t" unfolding n(2) by (rule coherent_funpow[OF k])
  note co' = coherent_loopBody[OF k co]
  have "quality (loopBody ?D t) = qualityOf ?D (partitions (data (loopBody ?D t))) wc"
    using co'(1) by (simp add: coherent_def)
  also have "\<dots> = quality t" using co assms(4) by (simp add: coherent_def)
  finally have same: "quality (loopBody ?D t) = quality t" .
  have dq: "dQ t = fsub (quality t) (quality ((loopBody ?D ^^ m) (beforeLoop ?D k dc wc)))"
    unfolding n(2) m by (rule dQ_funpow_Suc[OF k])
  from quality_range[OF assms(1), of n] have "\<exists>q. quality t = Fin q"
  proof
    assume "quality ((loopBody ?D ^^ n) (beforeLoop ?D k dc wc)) = NaN"
    then have "dQ t = NaN" unfolding dq n(2)[symmetric] by simp
    with fle_finite[OF assms(3)] show ?thesis by simp
  next
    assume "\<exists>q. quality ((loopBody ?D ^^ n) (beforeLoop ?D k dc wc)) = Fin q \<and> 0 \<le> q \<and> q \<le> real dc"
    then show ?thesis unfolding n(2)[symmetric] by blast
  qed
  then obtain q where q: "quality t = Fin q" by blast
  have "dQ (loopBody ?D t) = Fin 0" unfolding co'(2) same q by simp
  then show ?thesis by (simp add: fle_def Q_THRESHOLD_def)
qed

theorem C8_fixed_point_when_stable_witness:
  "valid_input (map (map Fin) docs_C10b) 2 4 2 \<and>
   runSPKMeans_locals (map (map Fin) docs_C10b) 2 4 2 =
     Some (loopBody (map (map Fin) docs_C10b)
        (loopBody (map (map Fin) docs_C10b) (beforeLoop (map (map Fin) docs_C10b) 2 4 2))) \<and>
   dQ (loopBody (txnScheme (map (map Fin) docs_C10b) 4 2) (loopBody (map (map Fin) docs_C10b)
        (loopBody (map (map Fin) docs_C10b) (beforeLoop (map (map Fin) docs_C10b) 2 4 2)))) = Fin 0"
proof -
  let ?D = "map (map Fin) docs_C10b"
  let ?t = "loopBody ?D (loopBody ?D (beforeLoop ?D 2 4 2))"
  have h3: "fle (dQ ?t) Q_THRESHOLD"
    unfolding C10b_step2(3) by (simp add: fle_def Q_THRESHOLD_def)
  have h4: "partitions (data (loopBody (txnScheme ?D 4 2) ?t)) = partitions (data ?t)"
    unfolding C10b_txn C10b_step3 C10b_step2(1) ..
  from C8_fixed_point_when_stable [OF C10b_valid C10b_run h3 h4]
  have "dQ (loopBody (txnScheme ?D 4 2) ?t) = Fin 0" by blast
  with C10b_valid C10b_run show ?thesis by blast
qed

end
